theory Spec2Isabelle
  imports Complex_Main "HOL-Library.Char_ord" "HOL-Library.List_Lexorder" "HOL-Library.Sublist"
begin

section \<open>Frame sampling and duplicate removal of youtube\_screenshot\_processor.py\<close>

text \<open>
  The embedding follows \<^verbatim>\<open>src/youtube_screenshot_processor.py\<close>. Python integers are
  \<open>int\<close>, the duration that \<^verbatim>\<open>ffprobe\<close> prints (a finite float, compared exactly with
  the integer clock) is a \<open>real\<close>, strings and file contents are \<open>string\<close>. The
  external tools are parameters: \<open>ffmpeg\<close> gives for a seek position the bytes of the
  frame it writes, or \<open>None\<close> when the process exits with a non-zero status;
  \<open>sha256_hex\<close> is \<^verbatim>\<open>hashlib.sha256(...).hexdigest()\<close>. Storage is an explicit state.
  Printing to the terminal, creating directories, the temporary directory, the copy of
  the video and the \<^verbatim>\<open>GITHUB_OUTPUT\<close> file are taken to succeed and are left out.
\<close>

subsection \<open>Integer formatting and paths\<close>

type_synonym path = string
type_synonym bytes = string

definition digit_char :: "nat \<Rightarrow> char" where
  "digit_char d = char_of (48 + d)"

text \<open>\<^verbatim>\<open>str(n)\<close> for a natural number: its decimal digits, most significant first.\<close>

fun dec :: "nat \<Rightarrow> string" where
  "dec n = (if n < 10 then [digit_char n] else dec (n div 10) @ [digit_char (n mod 10)])"

declare dec.simps [simp del]

definition zfill :: "nat \<Rightarrow> string \<Rightarrow> string" where
  "zfill w s = replicate (w - length s) CHR ''0'' @ s"

text \<open>The number that a string of decimal digits denotes (used to tell names apart).\<close>

definition digit_value :: "char \<Rightarrow> nat" where
  "digit_value c = of_char c - 48"

definition undec :: "string \<Rightarrow> nat" where
  "undec s = foldl (\<lambda>a c. 10 * a + digit_value c) 0 s"

text \<open>
  \<^verbatim>\<open>f"{i:04d}"\<close>: at least four characters, padded with zeros after the sign; a number
  with more digits is printed in full.
\<close>

definition format_04d :: "int \<Rightarrow> string" where
  "format_04d i = (if i < 0 then CHR ''-'' # zfill 3 (dec (nat (- i))) else zfill 4 (dec (nat i)))"

text \<open>\<^verbatim>\<open>os.path.join(a, b)\<close> on POSIX, for two components.\<close>

definition path_join :: "path \<Rightarrow> string \<Rightarrow> path" where
  "path_join a b =
     (if b \<noteq> [] \<and> hd b = CHR ''/'' then b
      else if a = [] \<or> last a = CHR ''/'' then a @ b
      else a @ ''/'' @ b)"

datatype quality = Highest | High

text \<open>Lines 164 to 174: the name of the image written for the clock value \<open>current_time\<close>.\<close>

definition time_str :: "int \<Rightarrow> string" where
  "time_str current_time = format_04d current_time @ ''s''"

definition output_file :: "path \<Rightarrow> string \<Rightarrow> quality \<Rightarrow> int \<Rightarrow> path" where
  "output_file output_dir title_prefix q current_time =
     (if q = Highest
      then path_join output_dir (title_prefix @ ''_'' @ time_str current_time @ ''.png'')
      else path_join output_dir (title_prefix @ ''_'' @ time_str current_time @ ''.jpg''))"

subsection \<open>Storage\<close>

text \<open>
  The files of the host: their contents, and whether opening a file for reading and
  unlinking it succeed. Only \<open>files\<close> is changed by the program.
\<close>

record storage =
  files :: "path \<rightharpoonup> bytes"
  readable :: "path \<Rightarrow> bool"
  removable :: "path \<Rightarrow> bool"

datatype py_error = CalledProcessError | ZeroDivisionError | OverflowError | ValueError | OSError

subsection \<open>Frame extraction\<close>

text \<open>
  \<^verbatim>\<open>format_time\<close> (line 33) builds a \<^verbatim>\<open>timedelta\<close>, which raises OverflowError when the
  number of days leaves the range of plus or minus 999999999.
\<close>

definition format_time_ok :: "int \<Rightarrow> bool" where
  "format_time_ok seconds = (- 999999999 \<le> seconds div 86400 \<and> seconds div 86400 \<le> 999999999)"

text \<open>
  What the extraction leaves behind apart from its return value: the storage, and the
  seek positions of the \<^verbatim>\<open>ffmpeg\<close> invocations made so far, oldest first.
\<close>

record world =
  disk :: storage
  ffmpeg_calls :: "int list"

definition write_file :: "path \<Rightarrow> bytes \<Rightarrow> storage \<Rightarrow> storage" where
  "write_file p b st = st\<lparr>files := (files st)(p \<mapsto> b)\<rparr>"

text \<open>
  The \<^verbatim>\<open>while\<close> loop of lines 163 to 190. An exception leaves the loop with \<open>Inl\<close>; the
  world is returned in either case, since files already written stay. The loop need not
  end (nothing stops it when \<open>interval \<le> 0\<close>): not returning is \<open>None\<close>.
\<close>

partial_function (option) extract_loop ::
  "(int \<Rightarrow> bytes option) \<Rightarrow> real \<Rightarrow> int \<Rightarrow> path \<Rightarrow> string \<Rightarrow> quality \<Rightarrow>
   nat \<Rightarrow> int \<Rightarrow> path list \<Rightarrow> world \<Rightarrow> ((py_error + nat \<times> path list) \<times> world) option"
where
  "extract_loop ffmpeg duration interval output_dir title_prefix q
       screenshots_taken current_time screenshot_files w =
     (if of_int current_time \<le> duration then
        (let f = output_file output_dir title_prefix q current_time;
             w1 = w\<lparr>ffmpeg_calls := ffmpeg_calls w @ [current_time]\<rparr>
         in case ffmpeg current_time of
              None \<Rightarrow> Some (Inl CalledProcessError, w1)
            | Some img \<Rightarrow>
                (let w2 = w1\<lparr>disk := write_file f img (disk w1)\<rparr>
                 in if duration = 0 then Some (Inl ZeroDivisionError, w2)
                    else if \<not> format_time_ok current_time then Some (Inl OverflowError, w2)
                    else extract_loop ffmpeg duration interval output_dir title_prefix q
                           (screenshots_taken + 1) (current_time + interval)
                           (screenshot_files @ [f]) w2))
      else Some (Inr (screenshots_taken, screenshot_files), w))"

text \<open>
  Lines 141 to 196. \<open>ffprobe\<close> is the outcome of running \<^verbatim>\<open>ffprobe\<close> and parsing its
  output as a float. Every exception ends in the handler of line 194, which returns
  \<open>(0, [])\<close>. \<open>extract_run\<close> is the body of the \<^verbatim>\<open>try\<close> block and keeps the exception.
\<close>

definition extract_run ::
  "(py_error + real) \<Rightarrow> (int \<Rightarrow> bytes option) \<Rightarrow> path \<Rightarrow> int \<Rightarrow> string \<Rightarrow> quality \<Rightarrow> world \<Rightarrow>
   ((py_error + nat \<times> path list) \<times> world) option" where
  "extract_run ffprobe ffmpeg output_dir interval title_prefix q w =
     (case ffprobe of
        Inl e \<Rightarrow> Some (Inl e, w)
      | Inr duration \<Rightarrow>
          extract_loop ffmpeg duration interval output_dir title_prefix q 0 0 [] w)"

definition handler :: "(py_error + nat \<times> path list) \<Rightarrow> nat \<times> path list" where
  "handler r = (case r of Inl e \<Rightarrow> (0, []) | Inr v \<Rightarrow> v)"

definition extract_high_quality_screenshots ::
  "(py_error + real) \<Rightarrow> (int \<Rightarrow> bytes option) \<Rightarrow> path \<Rightarrow> int \<Rightarrow> string \<Rightarrow> quality \<Rightarrow> world \<Rightarrow>
   ((nat \<times> path list) \<times> world) option" where
  "extract_high_quality_screenshots ffprobe ffmpeg output_dir interval title_prefix q w =
     map_option (\<lambda>(r, w'). (handler r, w'))
       (extract_run ffprobe ffmpeg output_dir interval title_prefix q w)"

subsection \<open>Duplicate removal\<close>

text \<open>
  Lines 198 to 204. Opening the file raises when it is missing or cannot be read; the
  handler turns that into \<^verbatim>\<open>None\<close>.
\<close>

definition get_image_hash :: "(bytes \<Rightarrow> string) \<Rightarrow> storage \<Rightarrow> path \<Rightarrow> string option" where
  "get_image_hash sha256_hex st image_path =
     (case files st image_path of
        None \<Rightarrow> None
      | Some content \<Rightarrow> if readable st image_path then Some (sha256_hex content) else None)"

text \<open>\<^verbatim>\<open>os.remove\<close>: unlinks the file, or raises and leaves the storage as it was.\<close>

definition os_remove :: "path \<Rightarrow> storage \<Rightarrow> py_error + storage" where
  "os_remove p st =
     (if files st p \<noteq> None \<and> removable st p
      then Inr (st\<lparr>files := (files st)(p := None)\<rparr>)
      else Inl OSError)"

text \<open>
  The variables of the loop of lines 211 to 224, the storage, and the paths handed to
  \<^verbatim>\<open>get_image_hash\<close> so far (oldest first).
\<close>

record dedup_state =
  hashes :: "string \<rightharpoonup> path"
  duplicates_removed :: nat
  store :: storage
  hash_calls :: "path list"

text \<open>
  The body of the \<^verbatim>\<open>for\<close> loop (lines 215 to 224) for one path. \<^verbatim>\<open>if img_hash:\<close> is
  Python's truth test: it fails for \<^verbatim>\<open>None\<close> and for the empty string. A failed
  \<^verbatim>\<open>os.remove\<close> is swallowed by \<^verbatim>\<open>except Exception: pass\<close> before the counter is
  incremented.
\<close>

definition dedup_step :: "(bytes \<Rightarrow> string) \<Rightarrow> path \<Rightarrow> dedup_state \<Rightarrow> dedup_state" where
  "dedup_step sha256_hex img_path s =
     (let img_hash = get_image_hash sha256_hex (store s) img_path;
          s1 = s\<lparr>hash_calls := hash_calls s @ [img_path]\<rparr>
      in case img_hash of
           None \<Rightarrow> s1
         | Some h \<Rightarrow>
             if h = [] then s1
             else if hashes s1 h \<noteq> None then
               (case os_remove img_path (store s1) of
                  Inr st' \<Rightarrow> s1\<lparr>store := st', duplicates_removed := duplicates_removed s1 + 1\<rparr>
                | Inl e \<Rightarrow> s1)
             else s1\<lparr>hashes := (hashes s1)(h \<mapsto> img_path)\<rparr>)"

text \<open>The loop runs the body over the list in order.\<close>

fun dedup_loop :: "(bytes \<Rightarrow> string) \<Rightarrow> path list \<Rightarrow> dedup_state \<Rightarrow> dedup_state" where
  "dedup_loop sha256_hex [] s = s"
| "dedup_loop sha256_hex (img_path # rest) s =
     dedup_loop sha256_hex rest (dedup_step sha256_hex img_path s)"

definition initial_state :: "storage \<Rightarrow> dedup_state" where
  "initial_state st = \<lparr>hashes = Map.empty, duplicates_removed = 0, store = st, hash_calls = []\<rparr>"

text \<open>
  Lines 206 to 226. The function returns the counter only; the storage it leaves and the
  fingerprint computations it made are its effects.
\<close>

record dedup_outcome =
  removed_count :: nat
  storage_after :: storage
  fingerprinted :: "path list"

definition remove_duplicate_screenshots ::
  "(bytes \<Rightarrow> string) \<Rightarrow> storage \<Rightarrow> path list \<Rightarrow> dedup_outcome" where
  "remove_duplicate_screenshots sha256_hex st screenshot_files =
     (if length screenshot_files \<le> 1
      then \<lparr>removed_count = 0, storage_after = st, fingerprinted = []\<rparr>
      else (let s = dedup_loop sha256_hex screenshot_files (initial_state st)
            in \<lparr>removed_count = duplicates_removed s, storage_after = store s,
                fingerprinted = hash_calls s\<rparr>))"

subsection \<open>Building the document\<close>

definition lower_char :: "char \<Rightarrow> char" where
  "lower_char c = (if CHR ''A'' \<le> c \<and> c \<le> CHR ''Z'' then char_of (of_char c + (32::nat)) else c)"

fun last_component :: "path \<Rightarrow> string" where
  "last_component p = rev (takeWhile (\<lambda>c. c \<noteq> CHR ''/'') (rev p))"

text \<open>\<^verbatim>\<open>Path.suffix\<close>: the part of the file name from its last dot, when that dot is
  neither the first nor the last character of the name.\<close>

definition suffix_of :: "path \<Rightarrow> string" where
  "suffix_of p =
     (let name = last_component p; ext = rev (takeWhile (\<lambda>c. c \<noteq> CHR ''.'') (rev name))
      in if CHR ''.'' \<in> set name \<and> ext \<noteq> [] \<and> length ext + 1 < length name
         then CHR ''.'' # ext else [])"

text \<open>Lines 233 to 236 and 260 to 263: the images of the directory, sorted by name.\<close>

definition image_files :: "path list \<Rightarrow> path list" where
  "image_files entries =
     sort (filter (\<lambda>f. map lower_char (suffix_of f) \<in> {''.png'', ''.jpg'', ''.jpeg''}) entries)"

text \<open>
  What the document build meets: whether \<^verbatim>\<open>import img2pdf\<close> succeeds, the entries
  that \<^verbatim>\<open>iterdir\<close> yields (or its exception), whether the document can be opened for
  writing, and the document either library produces from the sorted images (\<open>None\<close>
  when it raises). With \<^verbatim>\<open>img2pdf\<close> the file is opened before the conversion runs, so
  a failed conversion leaves an empty document; what a failed save of the other library
  leaves behind is not modelled.
\<close>

record pdf_env =
  img2pdf_installed :: bool
  iterdir :: "py_error + path list"
  pdf_writable :: bool
  img2pdf_convert :: "path list \<Rightarrow> bytes option"
  pillow_save :: "path list \<Rightarrow> bytes option"

text \<open>Lines 257 to 287.\<close>

definition create_pdf_with_pillow :: "pdf_env \<Rightarrow> path \<Rightarrow> storage \<Rightarrow> bool \<times> storage" where
  "create_pdf_with_pillow pe output_pdf st =
     (case iterdir pe of
        Inl e \<Rightarrow> (False, st)
      | Inr entries \<Rightarrow>
          (if image_files entries = [] then (False, st)
           else case pillow_save pe (image_files entries) of
                  None \<Rightarrow> (False, st)
                | Some doc \<Rightarrow> (True, write_file output_pdf doc st)))"

text \<open>Lines 228 to 255.\<close>

definition create_hd_pdf :: "pdf_env \<Rightarrow> path \<Rightarrow> storage \<Rightarrow> bool \<times> storage" where
  "create_hd_pdf pe output_pdf st =
     (if \<not> img2pdf_installed pe then create_pdf_with_pillow pe output_pdf st
      else case iterdir pe of
             Inl e \<Rightarrow> (False, st)
           | Inr entries \<Rightarrow>
               (if image_files entries = [] then (False, st)
                else if \<not> pdf_writable pe then (False, st)
                else case img2pdf_convert pe (image_files entries) of
                       None \<Rightarrow> (False, write_file output_pdf [] st)
                     | Some doc \<Rightarrow> (True, write_file output_pdf doc st)))"

subsection \<open>The orchestrator\<close>

text \<open>Lines 22 to 31.\<close>

definition strip_chars :: "string \<Rightarrow> string \<Rightarrow> string" where
  "strip_chars cs s = rev (dropWhile (\<lambda>c. c \<in> set cs) (rev (dropWhile (\<lambda>c. c \<in> set cs) s)))"

definition sanitize_filename :: "string \<Rightarrow> string" where
  "sanitize_filename filename =
     take 100
       (map (\<lambda>c. if c = CHR '' '' then CHR ''_'' else c)
          (strip_chars ''. ''
             (filter (\<lambda>c. c \<notin> set [CHR ''<'', CHR ''>'', CHR '':'', CHR 0x22, CHR ''/'',
                                     CHR 0x5C, CHR ''|'', CHR ''?'', CHR ''*'']) filename)))"

text \<open>
  The collaborators of one run of \<^verbatim>\<open>process_video\<close>: the title that \<^verbatim>\<open>get_video_info\<close>
  returns (or \<open>None\<close>), the two flags that \<^verbatim>\<open>download_video_and_transcript\<close> returns,
  the tools of the extraction and of the fingerprint, the document build, and
  \<open>child\<close>, the path that \<^verbatim>\<open>pathlib\<close> gives for \<^verbatim>\<open>a / b\<close>.
\<close>

record env =
  video_title :: "string option"
  download :: "bool \<times> bool"
  run_ffprobe :: "py_error + real"
  run_ffmpeg :: "int \<Rightarrow> bytes option"
  hexdigest :: "bytes \<Rightarrow> string"
  pdf :: pdf_env
  child :: "path \<Rightarrow> string \<Rightarrow> path"

text \<open>
  Lines 289 to 375. The result is the value returned and the world left behind; \<open>None\<close>
  when the extraction does not return. The parameters \<^verbatim>\<open>pdf_dpi\<close>, \<^verbatim>\<open>keep_video\<close> and
  \<^verbatim>\<open>no_transcript\<close> only reach the steps that are left out.
\<close>

definition process_video ::
  "env \<Rightarrow> int \<Rightarrow> path \<Rightarrow> quality \<Rightarrow> bool \<Rightarrow> world \<Rightarrow> (bool \<times> world) option" where
  "process_video e interval output_dir q no_pdf w =
     (case video_title e of
        None \<Rightarrow> Some (False, w)
      | Some title \<Rightarrow>
          (let safe_title = sanitize_filename title;
               video_dir = child e output_dir safe_title;
               images_dir = child e video_dir ''images''
           in if \<not> fst (download e) then Some (False, w)
              else case extract_high_quality_screenshots (run_ffprobe e) (run_ffmpeg e)
                          images_dir interval safe_title q w of
                     None \<Rightarrow> None
                   | Some ((screenshot_count, screenshot_files), w1) \<Rightarrow>
                       if screenshot_count > 0 then
                         (let d = remove_duplicate_screenshots (hexdigest e) (disk w1)
                                    screenshot_files;
                              st2 = (if \<not> no_pdf
                                     then snd (create_hd_pdf (pdf e)
                                            (child e video_dir (safe_title @ ''_HD.pdf''))
                                            (storage_after d))
                                     else storage_after d)
                          in Some (True, w1\<lparr>disk := st2\<rparr>))
                       else Some (False, w1)))"

subsection \<open>A host with no files\<close>

definition empty_storage :: storage where
  "empty_storage = \<lparr>files = Map.empty, readable = (\<lambda>p. True), removable = (\<lambda>p. True)\<rparr>"

definition empty_world :: world where
  "empty_world = \<lparr>disk = empty_storage, ffmpeg_calls = []\<rparr>"

text \<open>
  A host with three images, the first and the third byte-identical, and a stand-in for
  the digest that is never empty and differs on different contents.
\<close>

definition example_storage :: storage where
  "example_storage =
     \<lparr>files = [''a.png'' \<mapsto> ''x'', ''b.png'' \<mapsto> ''y'', ''c.png'' \<mapsto> ''x''],
      readable = (\<lambda>p. True), removable = (\<lambda>p. True)\<rparr>"

definition tag_digest :: "bytes \<Rightarrow> string" where
  "tag_digest content = CHR ''#'' # content"

text \<open>
  A run whose video of 10 seconds downloads, whose captures all succeed, and whose
  document build fails in either library.
\<close>

definition failing_pdf :: pdf_env where
  "failing_pdf =
     \<lparr>img2pdf_installed = True, iterdir = Inl OSError, pdf_writable = True,
      img2pdf_convert = (\<lambda>images. None), pillow_save = (\<lambda>images. None)\<rparr>"

definition example_env :: env where
  "example_env =
     \<lparr>video_title = Some ''v'', download = (True, False), run_ffprobe = Inr 10,
      run_ffmpeg = (\<lambda>t. Some ''frame''), hexdigest = tag_digest, pdf = failing_pdf,
      child = path_join\<rparr>"

subsection \<open>Notions of the specification\<close>

text \<open>The number of sample timestamps the specification gives: \<open>floor(D/I) + 1\<close>.\<close>

definition grid_size :: "real \<Rightarrow> int \<Rightarrow> nat" where
  "grid_size D I = nat (\<lfloor>D / of_int I\<rfloor> + 1)"

text \<open>
  The survivors of a pass: the artifacts of the input, in the input's order, whose
  file the pass did not delete.
\<close>

definition deleted :: "storage \<Rightarrow> storage \<Rightarrow> path \<Rightarrow> bool" where
  "deleted st st' p = (files st p \<noteq> None \<and> files st' p = None)"

definition survivors :: "storage \<Rightarrow> storage \<Rightarrow> path list \<Rightarrow> path list" where
  "survivors st st' xs = filter (\<lambda>p. \<not> deleted st st' p) xs"

text \<open>
  The artifact at position \<open>i\<close> is a later duplicate when it has a fingerprint and an
  artifact at an earlier position has the same one.
\<close>

definition fingerprint :: "(bytes \<Rightarrow> string) \<Rightarrow> storage \<Rightarrow> path \<Rightarrow> string option" where
  "fingerprint sha256_hex st p = get_image_hash sha256_hex st p"

text \<open>The body of the loop deletes the file of path \<open>x\<close> in state \<open>s\<close>.\<close>

definition removes :: "(bytes \<Rightarrow> string) \<Rightarrow> dedup_state \<Rightarrow> path \<Rightarrow> bool" where
  "removes H s x =
     (\<exists>h. get_image_hash H (store s) x = Some h \<and> h \<noteq> [] \<and> hashes s h \<noteq> None
          \<and> removable (store s) x)"

definition later_duplicate :: "(bytes \<Rightarrow> string) \<Rightarrow> storage \<Rightarrow> path list \<Rightarrow> nat \<Rightarrow> bool" where
  "later_duplicate sha256_hex st xs i =
     (fingerprint sha256_hex st (xs ! i) \<noteq> None \<and>
      (\<exists>j < i. fingerprint sha256_hex st (xs ! j) = fingerprint sha256_hex st (xs ! i)))"

section \<open>Properties\<close>

subsection \<open>One iteration of the extraction loop\<close>

lemma extract_loop_exit:
  "\<not> of_int t \<le> D \<Longrightarrow>
   extract_loop cap D I dir p q n t fs w = Some (Inr (n, fs), w)"
  by (subst extract_loop.simps) simp

lemma extract_loop_capture_fails:
  "of_int t \<le> D \<Longrightarrow> cap t = None \<Longrightarrow>
   extract_loop cap D I dir p q n t fs w =
     Some (Inl CalledProcessError, w\<lparr>ffmpeg_calls := ffmpeg_calls w @ [t]\<rparr>)"
  by (subst extract_loop.simps) simp

lemma extract_loop_zero_duration:
  "of_int t \<le> D \<Longrightarrow> cap t = Some img \<Longrightarrow> D = 0 \<Longrightarrow>
   extract_loop cap D I dir p q n t fs w =
     Some (Inl ZeroDivisionError,
       w\<lparr>ffmpeg_calls := ffmpeg_calls w @ [t],
         disk := write_file (output_file dir p q t) img (disk w)\<rparr>)"
  by (subst extract_loop.simps) simp

lemma extract_loop_overflow:
  "of_int t \<le> D \<Longrightarrow> cap t = Some img \<Longrightarrow> D \<noteq> 0 \<Longrightarrow> \<not> format_time_ok t \<Longrightarrow>
   extract_loop cap D I dir p q n t fs w =
     Some (Inl OverflowError,
       w\<lparr>ffmpeg_calls := ffmpeg_calls w @ [t],
         disk := write_file (output_file dir p q t) img (disk w)\<rparr>)"
  by (subst extract_loop.simps) simp

lemma extract_loop_step:
  "of_int t \<le> D \<Longrightarrow> cap t = Some img \<Longrightarrow> D \<noteq> 0 \<Longrightarrow> format_time_ok t \<Longrightarrow>
   extract_loop cap D I dir p q n t fs w =
     extract_loop cap D I dir p q (Suc n) (t + I) (fs @ [output_file dir p q t])
       (w\<lparr>ffmpeg_calls := ffmpeg_calls w @ [t],
         disk := write_file (output_file dir p q t) img (disk w)\<rparr>)"
  by (subst extract_loop.simps) (simp add: Let_def)

lemmas extract_loop_eval = extract_loop_exit extract_loop_capture_fails
  extract_loop_zero_duration extract_loop_overflow extract_loop_step

subsection \<open>The time grid\<close>

lemma grid_below:
  assumes "0 < I" "j < grid_size D I"
  shows "of_int (int j * I) \<le> D"
proof -
  have "int j \<le> \<lfloor>D / of_int I\<rfloor>" using assms(2) by (simp add: grid_size_def)
  then have "of_int (int j) \<le> D / of_int I" by (simp add: le_floor_iff)
  then show ?thesis using assms(1) by (simp add: pos_le_divide_eq)
qed

lemma grid_above:
  assumes "0 < I" "grid_size D I \<le> j"
  shows "\<not> of_int (int j * I) \<le> D"
proof -
  have "\<lfloor>D / of_int I\<rfloor> + 1 \<le> int j" using assms(2) by (simp add: grid_size_def)
  then have "\<lfloor>D / of_int I\<rfloor> < int j" by simp
  then have "D / of_int I < of_int (int j)" by (simp add: floor_less_iff)
  then show ?thesis using assms(1) by (simp add: pos_divide_less_eq not_le)
qed

lemma grid_size_pos: "0 \<le> D \<Longrightarrow> 0 < I \<Longrightarrow> grid_size D I = Suc (nat \<lfloor>D / of_int I\<rfloor>)"
  by (simp add: grid_size_def nat_add_distrib)

lemma grid_sorted: "0 < I \<Longrightarrow> sorted_wrt (<) (map (\<lambda>k. int k * I) [j..<n])"
  by (simp add: sorted_wrt_map sorted_wrt_iff_nth_less)

subsection \<open>Runs of the extraction loop\<close>

lemma extract_loop_nonpos_aux:
  assumes "extract_loop cap D I dir p q n t fs w = Some y"
  shows "I \<le> 0 \<longrightarrow> of_int t \<le> D \<longrightarrow>
           (\<exists>e. fst y = Inl e) \<and> (\<exists>rest. ffmpeg_calls (snd y) = ffmpeg_calls w @ t # rest)"
proof (rule extract_loop.raw_induct [where P = "\<lambda>cap D I dir p q n t fs w y.
    I \<le> 0 \<longrightarrow> of_int t \<le> D \<longrightarrow>
      (\<exists>e. fst y = Inl e) \<and> (\<exists>rest. ffmpeg_calls (snd y) = ffmpeg_calls w @ t # rest)", OF _ assms])
  fix loop :: "(int \<Rightarrow> bytes option) \<Rightarrow> real \<Rightarrow> int \<Rightarrow> path \<Rightarrow> string \<Rightarrow> quality \<Rightarrow>
      nat \<Rightarrow> int \<Rightarrow> path list \<Rightarrow> world \<Rightarrow> ((py_error + nat \<times> path list) \<times> world) option"
    and cap D I dir p q n t fs w y
  assume IH: "\<And>cap D I dir p q n t fs w y. loop cap D I dir p q n t fs w = Some y \<Longrightarrow>
      I \<le> 0 \<longrightarrow> of_int t \<le> D \<longrightarrow>
      (\<exists>e. fst y = Inl e) \<and> (\<exists>rest. ffmpeg_calls (snd y) = ffmpeg_calls w @ t # rest)"
    and eq: "(if of_int t \<le> D then
        (let f = output_file dir p q t;
             w1 = w\<lparr>ffmpeg_calls := ffmpeg_calls w @ [t]\<rparr>
         in case cap t of
              None \<Rightarrow> Some (Inl CalledProcessError, w1)
            | Some img \<Rightarrow>
                (let w2 = w1\<lparr>disk := write_file f img (disk w1)\<rparr>
                 in if D = 0 then Some (Inl ZeroDivisionError, w2)
                    else if \<not> format_time_ok t then Some (Inl OverflowError, w2)
                    else loop cap D I dir p q (n + 1) (t + I) (fs @ [f]) w2))
      else Some (Inr (n, fs), w)) = Some y"
  show "I \<le> 0 \<longrightarrow> of_int t \<le> D \<longrightarrow>
      (\<exists>e. fst y = Inl e) \<and> (\<exists>rest. ffmpeg_calls (snd y) = ffmpeg_calls w @ t # rest)"
  proof (intro impI)
    assume I: "I \<le> 0" and t: "of_int t \<le> D"
    show "(\<exists>e. fst y = Inl e) \<and> (\<exists>rest. ffmpeg_calls (snd y) = ffmpeg_calls w @ t # rest)"
    proof (cases "cap t")
      case None
      with eq t show ?thesis by auto
    next
      case (Some img)
      show ?thesis
      proof (cases "D = 0 \<or> \<not> format_time_ok t")
        case True
        with eq t Some show ?thesis by (auto simp: Let_def split: if_splits)
      next
        case False
        let ?w2 = "w\<lparr>ffmpeg_calls := ffmpeg_calls w @ [t],
                     disk := write_file (output_file dir p q t) img (disk w)\<rparr>"
        from False eq t Some
        have "loop cap D I dir p q (n + 1) (t + I) (fs @ [output_file dir p q t]) ?w2 = Some y"
          by (simp add: Let_def)
        have "real_of_int (t + I) \<le> D" using I t by simp
        with IH [OF \<open>loop cap D I dir p q (n + 1) (t + I) (fs @ [output_file dir p q t]) ?w2 = Some y\<close>] I
        have "(\<exists>e. fst y = Inl e) \<and> (\<exists>rest. ffmpeg_calls (snd y) = ffmpeg_calls ?w2 @ (t + I) # rest)"
          by blast
        then show ?thesis by auto
      qed
    qed
  qed
qed


lemma extract_loop_zero_interval_aux:
  assumes "extract_loop cap D I dir p q n t fs w = Some y"
  shows "\<not> (I = 0 \<and> of_int t \<le> D \<and> D \<noteq> 0 \<and> cap t \<noteq> None \<and> format_time_ok t)"
proof (rule extract_loop.raw_induct [where P = "\<lambda>cap D I dir p q n t fs w y.
    \<not> (I = 0 \<and> of_int t \<le> D \<and> D \<noteq> 0 \<and> cap t \<noteq> None \<and> format_time_ok t)", OF _ assms])
  fix loop :: "(int \<Rightarrow> bytes option) \<Rightarrow> real \<Rightarrow> int \<Rightarrow> path \<Rightarrow> string \<Rightarrow> quality \<Rightarrow>
      nat \<Rightarrow> int \<Rightarrow> path list \<Rightarrow> world \<Rightarrow> ((py_error + nat \<times> path list) \<times> world) option"
    and cap D I dir p q n t fs w y
  assume IH: "\<And>cap D I dir p q n t fs w y. loop cap D I dir p q n t fs w = Some y \<Longrightarrow>
      \<not> (I = 0 \<and> of_int t \<le> D \<and> D \<noteq> 0 \<and> cap t \<noteq> None \<and> format_time_ok t)"
    and eq: "(if of_int t \<le> D then
        (let f = output_file dir p q t;
             w1 = w\<lparr>ffmpeg_calls := ffmpeg_calls w @ [t]\<rparr>
         in case cap t of
              None \<Rightarrow> Some (Inl CalledProcessError, w1)
            | Some img \<Rightarrow>
                (let w2 = w1\<lparr>disk := write_file f img (disk w1)\<rparr>
                 in if D = 0 then Some (Inl ZeroDivisionError, w2)
                    else if \<not> format_time_ok t then Some (Inl OverflowError, w2)
                    else loop cap D I dir p q (n + 1) (t + I) (fs @ [f]) w2))
      else Some (Inr (n, fs), w)) = Some y"
  show "\<not> (I = 0 \<and> of_int t \<le> D \<and> D \<noteq> 0 \<and> cap t \<noteq> None \<and> format_time_ok t)"
  proof
    assume c: "I = 0 \<and> of_int t \<le> D \<and> D \<noteq> 0 \<and> cap t \<noteq> None \<and> format_time_ok t"
    then obtain img where img: "cap t = Some img" by auto
    let ?w2 = "w\<lparr>ffmpeg_calls := ffmpeg_calls w @ [t],
                 disk := write_file (output_file dir p q t) img (disk w)\<rparr>"
    from c img eq
    have "loop cap D I dir p q (n + 1) (t + I) (fs @ [output_file dir p q t]) ?w2 = Some y"
      by (simp add: Let_def)
    from IH [OF this] c show False by simp
  qed
qed

lemma zero_interval_never_returns:
  assumes "0 < D" and "cap 0 = Some img"
  shows "extract_high_quality_screenshots (Inr D) cap dir 0 p q w = None"
proof (cases "extract_loop cap D 0 dir p q 0 0 [] w")
  case None
  then show ?thesis by (simp add: extract_high_quality_screenshots_def extract_run_def)
next
  case (Some y)
  from extract_loop_zero_interval_aux [OF this] assms show ?thesis
    by (simp add: format_time_ok_def)
qed


lemma extract_loop_visits_grid:
  assumes "0 < I" and "D \<noteq> 0"
    and ok: "\<And>k. k < grid_size D I \<Longrightarrow> cap (int k * I) \<noteq> None \<and> format_time_ok (int k * I)"
  shows "j \<le> grid_size D I \<Longrightarrow>
    \<exists>w'. extract_loop cap D I dir p q n (int j * I) fs w =
            Some (Inr (n + (grid_size D I - j),
                       fs @ map (\<lambda>k. output_file dir p q (int k * I)) [j..<grid_size D I]), w')
        \<and> ffmpeg_calls w' = ffmpeg_calls w @ map (\<lambda>k. int k * I) [j..<grid_size D I]"
proof (induction "grid_size D I - j" arbitrary: j n fs w)
  case 0
  then have "grid_size D I \<le> j" by simp
  with grid_above [OF assms(1)] 0 show ?case by (simp add: extract_loop_exit)
next
  case (Suc m)
  then have lt: "j < grid_size D I" and m: "m = grid_size D I - Suc j"
    and le: "Suc j \<le> grid_size D I" by simp_all
  have nxt: "int j * I + I = int (Suc j) * I" by (simp add: algebra_simps)
  from ok [OF lt] obtain img where img: "cap (int j * I) = Some img"
    and fmt: "format_time_ok (int j * I)" by auto
  let ?f = "output_file dir p q (int j * I)"
  let ?w2 = "w\<lparr>ffmpeg_calls := ffmpeg_calls w @ [int j * I],
               disk := write_file ?f img (disk w)\<rparr>"
  have step: "extract_loop cap D I dir p q n (int j * I) fs w =
      extract_loop cap D I dir p q (Suc n) (int (Suc j) * I) (fs @ [?f]) ?w2"
    using extract_loop_step [where cap = cap and t = "int j * I", OF grid_below [OF assms(1) lt] img assms(2) fmt] by (simp only: nxt)
  from Suc.hyps(1) [OF m le, of "Suc n" "fs @ [?f]" ?w2]
  obtain w' where
    r: "extract_loop cap D I dir p q (Suc n) (int (Suc j) * I) (fs @ [?f]) ?w2 =
          Some (Inr (Suc n + (grid_size D I - Suc j),
                     (fs @ [?f]) @ map (\<lambda>k. output_file dir p q (int k * I)) [Suc j..<grid_size D I]), w')"
    and c: "ffmpeg_calls w' = ffmpeg_calls ?w2 @ map (\<lambda>k. int k * I) [Suc j..<grid_size D I]"
    by blast
  have "Suc n + (grid_size D I - Suc j) = n + (grid_size D I - j)" using lt by simp
  with r c step lt show ?case by (simp add: upt_conv_Cons)
qed

lemma format_time_ok_range: "0 \<le> t \<Longrightarrow> t < 86400000000000 \<Longrightarrow> format_time_ok t"
  unfolding format_time_ok_def by arith

text \<open>The two kinds of complete run: a duration of 0, and a positive duration.\<close>

lemma run_zero_duration:
  assumes "cap 0 = Some img"
  shows "extract_run (Inr 0) cap dir I p q w =
    Some (Inl ZeroDivisionError,
          w\<lparr>ffmpeg_calls := ffmpeg_calls w @ [0],
            disk := write_file (output_file dir p q 0) img (disk w)\<rparr>)"
  using extract_loop_zero_duration [where cap = cap and t = 0 and D = 0, OF _ assms]
  by (simp add: extract_run_def)

lemma grid_zero: "0 < I \<Longrightarrow> map (\<lambda>k. int k * I) [0..<nat \<lfloor>(0::real) / of_int I\<rfloor> + 1] = [0]"
  by simp

lemma run_positive_duration:
  assumes "0 < D" and "D < 86400000000000" and "0 < I"
    and cap: "\<And>t. 0 \<le> t \<Longrightarrow> of_int t \<le> D \<Longrightarrow> cap t \<noteq> None"
  shows "\<exists>w'. extract_run (Inr D) cap dir I p q w =
            Some (Inr (grid_size D I,
                       map (output_file dir p q) (map (\<lambda>k. int k * I) [0..<grid_size D I])), w')
         \<and> ffmpeg_calls w' = ffmpeg_calls w @ map (\<lambda>k. int k * I) [0..<grid_size D I]"
proof -
  have nz: "D \<noteq> 0" using assms(1) by simp
  have ok: "cap (int k * I) \<noteq> None \<and> format_time_ok (int k * I)" if "k < grid_size D I" for k
  proof -
    have le: "real_of_int (int k * I) \<le> D" by (rule grid_below [OF assms(3) that])
    with assms(2) have "real_of_int (int k * I) < 86400000000000" by simp
    then have "int k * I < 86400000000000" by linarith
    moreover have nn: "0 \<le> int k * I" using assms(3) by simp
    ultimately have "format_time_ok (int k * I)" by (simp add: format_time_ok_range)
    with cap [OF nn le] show ?thesis by simp
  qed
  from extract_loop_visits_grid [where cap = cap and D = D and j = 0 and dir = dir and p = p
      and q = q and n = 0 and fs = "[]" and w = w, OF assms(3) nz ok]
  obtain w' where
    r: "extract_loop cap D I dir p q 0 0 [] w =
          Some (Inr (grid_size D I,
                     map (\<lambda>k. output_file dir p q (int k * I)) [0..<grid_size D I]), w')"
    and c: "ffmpeg_calls w' = ffmpeg_calls w @ map (\<lambda>k. int k * I) [0..<grid_size D I]"
    by auto
  have m: "map (output_file dir p q) (map (\<lambda>k. int k * I) [0..<grid_size D I]) =
           map (\<lambda>k. output_file dir p q (int k * I)) [0..<grid_size D I]"
    by (simp add: o_def)
  from r c show ?thesis by (simp only: extract_run_def sum.case m) blast
qed

text \<open>
  Claim C4, as amended. For every duration \<open>0 \<le> D < 86400000000000\<close> and every interval
  \<open>I > 0\<close>, when the capture succeeds at every timestamp within the duration, the
  extraction invokes \<^verbatim>\<open>ffmpeg\<close> at exactly the timestamps \<open>0, I, 2 * I, ...\<close>: there are
  \<open>floor (D / I) + 1\<close> of them, they are strictly ascending, the first is \<open>0\<close> and the last
  is at most \<open>D\<close>. A duration of \<open>0\<close> gives the single timestamp \<open>0\<close>, after which the
  run ends in ZeroDivisionError; for a positive duration one file per timestamp is
  returned.
\<close>

theorem sample_timestamps:
  assumes "0 \<le> D" and "D < 86400000000000" and "0 < I"
    and "\<And>t. 0 \<le> t \<Longrightarrow> of_int t \<le> D \<Longrightarrow> cap t \<noteq> None"
  shows "\<exists>r w' ts. extract_run (Inr D) cap dir I p q w = Some (r, w')
           \<and> ffmpeg_calls w' = ffmpeg_calls w @ ts
           \<and> ts = map (\<lambda>k. int k * I) [0..<nat \<lfloor>D / of_int I\<rfloor> + 1]
           \<and> length ts = nat \<lfloor>D / of_int I\<rfloor> + 1
           \<and> sorted_wrt (<) ts
           \<and> hd ts = 0
           \<and> of_int (last ts) \<le> D
           \<and> (D = 0 \<longrightarrow> ts = [0] \<and> r = Inl ZeroDivisionError)
           \<and> (0 < D \<longrightarrow> r = Inr (length ts, map (output_file dir p q) ts))"
proof -
  define n where "n = nat \<lfloor>D / of_int I\<rfloor>"
  define ts where "ts = map (\<lambda>k. int k * I) [0..<n + 1]"
  have size: "grid_size D I = n + 1" using assms(1,3) by (simp add: grid_size_pos n_def)
  have len: "length ts = n + 1" by (simp add: ts_def)
  have srt: "sorted_wrt (<) ts" unfolding ts_def by (rule grid_sorted [OF assms(3)])
  have hd0: "hd ts = 0" by (simp add: ts_def hd_map upt_conv_Cons del: upt_Suc)
  have "last ts = int n * I" by (simp add: ts_def last_map)
  moreover have "of_int (int n * I) \<le> D"
    using grid_below [OF assms(3), of n D] size by simp
  ultimately have lst: "of_int (last ts) \<le> D" by simp
  have run: "\<exists>r w'. extract_run (Inr D) cap dir I p q w = Some (r, w')
      \<and> ffmpeg_calls w' = ffmpeg_calls w @ ts
      \<and> (D = 0 \<longrightarrow> ts = [0] \<and> r = Inl ZeroDivisionError)
      \<and> (0 < D \<longrightarrow> r = Inr (length ts, map (output_file dir p q) ts))"
  proof (cases "D = 0")
    case True
    from assms(4) [of 0] True obtain img where img: "cap 0 = Some img" by auto
    have "ts = [0]" using True assms(3) by (simp add: ts_def n_def)
    with run_zero_duration [where cap = cap and dir = dir and I = I and p = p and q = q
        and w = w, OF img] True show ?thesis by simp
  next
    case False
    with assms(1) have pos: "0 < D" by simp
    from run_positive_duration [where cap = cap, OF pos assms(2) assms(3) assms(4)]
    obtain w' where
      r: "extract_run (Inr D) cap dir I p q w =
            Some (Inr (grid_size D I,
                       map (output_file dir p q) (map (\<lambda>k. int k * I) [0..<grid_size D I])), w')"
      and c: "ffmpeg_calls w' = ffmpeg_calls w @ map (\<lambda>k. int k * I) [0..<grid_size D I]"
      by blast
    have g: "map (\<lambda>k. int k * I) [0..<n + 1] = ts" by (simp only: ts_def)
    from r c have "extract_run (Inr D) cap dir I p q w =
        Some (Inr (length ts, map (output_file dir p q) ts), w')"
      and "ffmpeg_calls w' = ffmpeg_calls w @ ts"
      by (simp_all only: size g len)
    with False show ?thesis by blast
  qed
  then obtain r w' where
    f1: "extract_run (Inr D) cap dir I p q w = Some (r, w')"
    and f2: "ffmpeg_calls w' = ffmpeg_calls w @ ts"
    and f3: "D = 0 \<longrightarrow> ts = [0] \<and> r = Inl ZeroDivisionError"
    and f4: "0 < D \<longrightarrow> r = Inr (length ts, map (output_file dir p q) ts)"
    by blast
  have f5: "ts = map (\<lambda>k. int k * I) [0..<nat \<lfloor>D / of_int I\<rfloor> + 1]"
    by (simp only: ts_def n_def)
  have f6: "length ts = nat \<lfloor>D / of_int I\<rfloor> + 1" by (simp only: len n_def)
  show ?thesis
  proof (intro exI conjI)
    show "extract_run (Inr D) cap dir I p q w = Some (r, w')" by (rule f1)
    show "ffmpeg_calls w' = ffmpeg_calls w @ ts" by (rule f2)
    show "ts = map (\<lambda>k. int k * I) [0..<nat \<lfloor>D / of_int I\<rfloor> + 1]" by (rule f5)
    show "length ts = nat \<lfloor>D / of_int I\<rfloor> + 1" by (rule f6)
    show "sorted_wrt (<) ts" by (rule srt)
    show "hd ts = 0" by (rule hd0)
    show "of_int (last ts) \<le> D" by (rule lst)
    show "D = 0 \<longrightarrow> ts = [0] \<and> r = Inl ZeroDivisionError" by (rule f3)
    show "0 < D \<longrightarrow> r = Inr (length ts, map (output_file dir p q) ts)" by (rule f4)
  qed
qed

lemma output_file_example_4_8:
  "output_file ''images'' ''v'' Highest 0 = ''images/v_0000s.png''"
  "output_file ''images'' ''v'' Highest 4 = ''images/v_0004s.png''"
  "output_file ''images'' ''v'' Highest 8 = ''images/v_0008s.png''"
  by code_simp+

theorem sample_timestamps_witness:
  "(0::real) \<le> 10 \<and> (10::real) < 86400000000000 \<and> (0::int) < 4
   \<and> (\<forall>t::int. (\<lambda>t. Some ''frame'') t \<noteq> None)
   \<and> map_option (\<lambda>(r, w'). (r, ffmpeg_calls w'))
        (extract_run (Inr 10) (\<lambda>t. Some ''frame'') ''images'' 4 ''v'' Highest empty_world) =
       Some (Inr (3, [''images/v_0000s.png'', ''images/v_0004s.png'', ''images/v_0008s.png'']),
             [0, 4, 8])
   \<and> map_option (\<lambda>(r, w'). (r, ffmpeg_calls w'))
        (extract_run (Inr 0) (\<lambda>t. Some ''frame'') ''images'' 4 ''v'' Highest empty_world) =
       Some (Inl ZeroDivisionError, [0])"
  using sample_timestamps [where D = 10 and I = 4 and cap = "\<lambda>t. Some ''frame''"
      and dir = "''images''" and p = "''v''" and q = Highest and w = empty_world]
    sample_timestamps [where D = 0 and I = 4 and cap = "\<lambda>t. Some ''frame''"
      and dir = "''images''" and p = "''v''" and q = Highest and w = empty_world]
  by (simp add: extract_run_def extract_loop_eval format_time_ok_def output_file_example_4_8
      empty_world_def)

text \<open>
  The sequence is cut short where an iteration raises. With a duration of
  200000000000000 seconds and an interval of 100000000000000, \<open>floor (D / I) + 1 = 3\<close>, but
  \<^verbatim>\<open>format_time\<close> raises OverflowError at the second timestamp and the third is never
  reached. With a duration of 10 and an interval of 4, a failed capture at 4 ends the
  sequence at \<open>[0, 4]\<close>.
\<close>

theorem sample_timestamps_counterexample:
  "nat \<lfloor>(200000000000000::real) / of_int 100000000000000\<rfloor> + 1 = 3
   \<and> map_option (\<lambda>(r, w'). (r, ffmpeg_calls w'))
        (extract_run (Inr 200000000000000) (\<lambda>t. Some ''frame'') ''images'' 100000000000000 ''v''
           Highest empty_world) =
       Some (Inl OverflowError, [0, 100000000000000])
   \<and> map_option (\<lambda>(r, w'). (r, ffmpeg_calls w'))
        (extract_run (Inr 10) (\<lambda>t. if t = 4 then None else Some ''frame'') ''images'' 4 ''v''
           Highest empty_world) =
       Some (Inl CalledProcessError, [0, 4])"
  by (simp add: extract_run_def extract_loop_eval format_time_ok_def empty_world_def)

text \<open>
  Claim C10. For a duration of \<open>0\<close> and any interval (in particular any interval
  \<open>> 0\<close>), once the frame at timestamp \<open>0\<close> has been captured and written, the progress
  computation divides by the duration: the body ends in ZeroDivisionError, the handler
  returns a count of \<open>0\<close> and an empty list, and the written frame stays on storage.
\<close>

theorem zero_duration_loses_frame:
  assumes "cap 0 = Some img"
  shows "extract_run (Inr 0) cap dir I p q w =
           Some (Inl ZeroDivisionError,
                 w\<lparr>ffmpeg_calls := ffmpeg_calls w @ [0],
                   disk := write_file (output_file dir p q 0) img (disk w)\<rparr>)
       \<and> extract_high_quality_screenshots (Inr 0) cap dir I p q w =
           Some ((0, []),
                 w\<lparr>ffmpeg_calls := ffmpeg_calls w @ [0],
                   disk := write_file (output_file dir p q 0) img (disk w)\<rparr>)
       \<and> files (write_file (output_file dir p q 0) img (disk w)) (output_file dir p q 0) = Some img"
  using extract_loop_zero_duration [where cap = cap and t = 0 and D = 0, OF _ assms]
  by (simp add: extract_high_quality_screenshots_def extract_run_def handler_def write_file_def)

lemma output_file_example:
  "output_file ''images'' ''v'' Highest 0 = ''images/v_0000s.png''"
  by code_simp

theorem zero_duration_loses_frame_witness:
  "(\<lambda>t::int. Some ''frame'') 0 = Some ''frame''
   \<and> extract_high_quality_screenshots (Inr 0) (\<lambda>t. Some ''frame'') ''images'' 5 ''v'' Highest empty_world =
       Some ((0, []),
             \<lparr>disk = empty_storage\<lparr>files := [''images/v_0000s.png'' \<mapsto> ''frame'']\<rparr>,
              ffmpeg_calls = [0]\<rparr>)"
  using zero_duration_loses_frame [where cap = "\<lambda>t. Some ''frame''" and img = "''frame''"
      and dir = "''images''" and I = 5 and p = "''v''" and q = Highest and w = empty_world]
  by (simp add: output_file_example empty_world_def write_file_def empty_storage_def)




text \<open>The orchestrator turns a count of 0 into failure (lines 333 and 373 to 375).\<close>

lemma process_video_reports_failure:
  assumes "extract_high_quality_screenshots (run_ffprobe e) (run_ffmpeg e)
             (child e (child e output_dir (sanitize_filename title)) ''images'')
             interval (sanitize_filename title) q w = Some ((0, fs), w')"
    and "video_title e = Some title" and "fst (download e)"
  shows "process_video e interval output_dir q no_pdf w = Some (False, w')"
  using assms by (simp add: process_video_def Let_def)

text \<open>
  Claim C3, as amended. The code does not validate the interval. For an interval
  \<open>\<le> 0\<close> and a duration \<open>\<ge> 0\<close> the capture at timestamp 0 is invoked first, and the call
  never yields frames: it does not return, or it returns a count of \<open>0\<close> and an empty
  list.
\<close>

theorem nonpositive_interval:
  assumes "I \<le> 0" and "0 \<le> D"
  shows "case extract_high_quality_screenshots (Inr D) cap dir I p q w of
           None \<Rightarrow> True
         | Some (r, w') \<Rightarrow> r = (0, []) \<and> (\<exists>rest. ffmpeg_calls w' = ffmpeg_calls w @ 0 # rest)"
proof (cases "extract_loop cap D I dir p q 0 0 [] w")
  case None
  then show ?thesis by (simp add: extract_high_quality_screenshots_def extract_run_def)
next
  case (Some y)
  from extract_loop_nonpos_aux [OF this] assms
  have "(\<exists>e. fst y = Inl e) \<and> (\<exists>rest. ffmpeg_calls (snd y) = ffmpeg_calls w @ 0 # rest)"
    by simp
  with Some show ?thesis
    by (cases y) (auto simp: extract_high_quality_screenshots_def extract_run_def handler_def)
qed

theorem nonpositive_interval_witness:
  "(- 4::int) \<le> 0 \<and> (0::real) \<le> 10
   \<and> extract_high_quality_screenshots (Inr 10) (\<lambda>t. if t = 0 then Some ''frame'' else None)
        ''images'' (- 4) ''v'' Highest empty_world \<noteq> None
   \<and> (case extract_high_quality_screenshots (Inr 10) (\<lambda>t. if t = 0 then Some ''frame'' else None)
              ''images'' (- 4) ''v'' Highest empty_world of
         None \<Rightarrow> True
       | Some (r, w') \<Rightarrow> r = (0, []) \<and> (\<exists>rest. ffmpeg_calls w' = ffmpeg_calls empty_world @ 0 # rest))"
  using nonpositive_interval [where I = "- 4" and D = 10
      and cap = "\<lambda>t. if t = 0 then Some ''frame'' else None"
      and dir = "''images''" and p = "''v''" and q = Highest and w = empty_world]
  by (simp add: extract_high_quality_screenshots_def extract_run_def
      extract_loop_eval format_time_ok_def)

text \<open>
  With an interval of 0 and a duration of 0 the frame at 0 is captured and written before
  the run ends in ZeroDivisionError; with an interval of \<open>- 4\<close> the captures at 0 and
  \<open>- 4\<close> are invoked. No run ends in an error about the interval.
\<close>

theorem invalid_interval_counterexample:
  "extract_run (Inr 0) (\<lambda>t. Some ''frame'') ''images'' 0 ''v'' Highest empty_world =
     Some (Inl ZeroDivisionError,
           \<lparr>disk = empty_storage\<lparr>files := [''images/v_0000s.png'' \<mapsto> ''frame'']\<rparr>,
            ffmpeg_calls = [0]\<rparr>)
   \<and> extract_run (Inr 10) (\<lambda>t. if t = 0 then Some ''frame'' else None) ''images'' (- 4) ''v''
        Highest empty_world =
     Some (Inl CalledProcessError,
           \<lparr>disk = empty_storage\<lparr>files := [''images/v_0000s.png'' \<mapsto> ''frame'']\<rparr>,
            ffmpeg_calls = [0, - 4]\<rparr>)"
  by (simp add: extract_run_def extract_loop_eval format_time_ok_def output_file_example
      empty_world_def write_file_def empty_storage_def)

subsection \<open>File names and temporal order\<close>

lemma digit_char_0: "digit_char 0 = CHR ''0''"
  by code_simp

lemma replicate_2: "replicate 2 x = [x, x]"
  by (simp add: numeral_2_eq_2)

lemma replicate_3: "replicate 3 x = [x, x, x]"
  by (simp add: numeral_3_eq_3)

lemma dec_digit: "n < 10 \<Longrightarrow> dec n = [digit_char n]"
  by (simp add: dec.simps [of n])

lemma dec_step: "10 \<le> n \<Longrightarrow> dec n = dec (n div 10) @ [digit_char (n mod 10)]"
  by (simp add: dec.simps [of n])

lemma dec_two: "10 \<le> n \<Longrightarrow> n < 100 \<Longrightarrow> dec n = [digit_char (n div 10), digit_char (n mod 10)]"
  by (simp add: dec_step dec_digit)

lemma dec_three:
  "100 \<le> n \<Longrightarrow> n < 1000 \<Longrightarrow>
   dec n = [digit_char (n div 100), digit_char (n div 10 mod 10), digit_char (n mod 10)]"
  using dec_two [of "n div 10"] by (simp add: dec_step [of n] div_mult2_eq [symmetric])

lemma dec_four:
  "1000 \<le> n \<Longrightarrow> n < 10000 \<Longrightarrow>
   dec n = [digit_char (n div 1000), digit_char (n div 100 mod 10), digit_char (n div 10 mod 10),
            digit_char (n mod 10)]"
  using dec_three [of "n div 10"] by (simp add: dec_step [of n] div_mult2_eq [symmetric])

lemma dec_small:
  assumes "n < 10000"
  shows "zfill 4 (dec n) =
     [digit_char (n div 1000), digit_char (n div 100 mod 10), digit_char (n div 10 mod 10),
      digit_char (n mod 10)]"
proof -
  consider "n < 10" | "10 \<le> n" "n < 100" | "100 \<le> n" "n < 1000" | "1000 \<le> n"
    by linarith
  then show ?thesis
  proof cases
    case 1
    then show ?thesis by (simp add: dec_digit zfill_def replicate_3 digit_char_0)
  next
    case 2
    then show ?thesis by (simp add: dec_two zfill_def replicate_2 digit_char_0)
  next
    case 3
    then show ?thesis by (simp add: dec_three zfill_def digit_char_0)
  next
    case 4
    with assms show ?thesis by (simp add: dec_four zfill_def)
  qed
qed

lemma digit_char_less: "a < 10 \<Longrightarrow> b < 10 \<Longrightarrow> (digit_char a < digit_char b) = (a < b)"
  by (simp add: digit_char_def less_char_def)

lemma digit_char_eq: "a < 10 \<Longrightarrow> b < 10 \<Longrightarrow> (digit_char a = digit_char b) = (a = b)"
  by (simp add: digit_char_def char_of_quasi_inj)

lemma div_mod_order:
  assumes "(a::nat) < b"
  shows "a div 10 < b div 10 \<or> (a div 10 = b div 10 \<and> a mod 10 < b mod 10)"
proof (cases "a div 10 = b div 10")
  case True
  have "a = 10 * (a div 10) + a mod 10" "b = 10 * (b div 10) + b mod 10" by simp_all
  with True assms have "a mod 10 < b mod 10" by linarith
  with True show ?thesis by simp
next
  case False
  moreover have "a div 10 \<le> b div 10" using assms by (simp add: div_le_mono)
  ultimately show ?thesis by simp
qed

lemma four_digits_order:
  assumes "a < b" and "b < (10000::nat)"
  shows "zfill 4 (dec a) @ s < zfill 4 (dec b) @ s"
proof -
  have a: "a < 10000" using assms by simp
  have h: "a div 100 = a div 10 div 10" "b div 100 = b div 10 div 10"
    "a div 1000 = a div 10 div 10 div 10" "b div 1000 = b div 10 div 10 div 10"
    by (simp_all add: div_mult2_eq [symmetric])
  have "a div 1000 < b div 1000
      \<or> a div 1000 = b div 1000 \<and> (a div 100 mod 10 < b div 100 mod 10
      \<or> a div 100 mod 10 = b div 100 mod 10 \<and> (a div 10 mod 10 < b div 10 mod 10
      \<or> a div 10 mod 10 = b div 10 mod 10 \<and> a mod 10 < b mod 10))"
    unfolding h
    using div_mod_order [OF assms(1)] div_mod_order [of "a div 10" "b div 10"]
      div_mod_order [of "a div 10 div 10" "b div 10 div 10"]
    by auto
  moreover have "a div 1000 < 10" "b div 1000 < 10" using assms by simp_all
  ultimately show ?thesis
    by (simp add: dec_small [OF a] dec_small [OF assms(2)] digit_char_less digit_char_eq)
qed

lemma common_prefix_less: "(xs @ a < xs @ (b::string)) = (a < b)"
  by (induction xs) simp_all

lemma path_join_shape:
  "\<exists>x. \<forall>r. path_join dir (p @ CHR ''_'' # r) = x @ CHR ''_'' # r"
proof (cases "p \<noteq> [] \<and> hd p = CHR ''/''")
  case True
  then have "\<forall>r. path_join dir (p @ CHR ''_'' # r) = p @ CHR ''_'' # r"
    by (simp add: path_join_def)
  then show ?thesis by blast
next
  case False
  then have nohd: "\<And>r. hd (p @ CHR ''_'' # r) \<noteq> CHR ''/''" by (cases p) auto
  show ?thesis
  proof (cases "dir = [] \<or> last dir = CHR ''/''")
    case True
    with nohd have "\<forall>r. path_join dir (p @ CHR ''_'' # r) = (dir @ p) @ CHR ''_'' # r"
      by (simp add: path_join_def)
    then show ?thesis by blast
  next
    case False
    with nohd have "\<forall>r. path_join dir (p @ CHR ''_'' # r) = (dir @ ''/'' @ p) @ CHR ''_'' # r"
      by (simp add: path_join_def)
    then show ?thesis by blast
  qed
qed

text \<open>Below 10000 seconds the names are ordered as the timestamps are.\<close>

lemma output_file_order_below_10000:
  assumes "0 \<le> t1" and "t1 < t2" and "t2 < 10000"
  shows "output_file dir p q t1 < output_file dir p q t2"
proof -
  obtain x where x: "\<And>r. path_join dir (p @ CHR ''_'' # r) = x @ CHR ''_'' # r"
    using path_join_shape by blast
  have "nat t1 < nat t2" "nat t2 < 10000" using assms by simp_all
  from four_digits_order [OF this]
  have "zfill 4 (dec (nat t1)) @ s < zfill 4 (dec (nat t2)) @ s" for s .
  then show ?thesis using assms
    by (simp add: output_file_def time_str_def format_04d_def x common_prefix_less)
qed

lemma digit_char_1: "digit_char (Suc 0) = CHR ''1''"
  by code_simp

lemma digit_char_5: "digit_char 5 = CHR ''5''"
  by code_simp

lemma long_video_names:
  "output_file ''images'' ''v'' Highest 5000 = ''images/v_5000s.png''"
  "output_file ''images'' ''v'' Highest 10000 = ''images/v_10000s.png''"
  by (simp_all add: output_file_def path_join_def time_str_def format_04d_def zfill_def
      dec_four dec_step [of 10000] digit_char_1 digit_char_5 digit_char_0)

lemma long_video_names_less: "''images/v_10000s.png'' < ''images/v_5000s.png''"
  by (simp add: less_char_def)

lemma long_video_suffix: "suffix_of ''images/v_10000s.png'' = ''.png''" "suffix_of ''images/v_5000s.png'' = ''.png''"
  by (simp_all add: suffix_of_def)

lemma lower_png:
  "lower_char CHR ''.'' = CHR ''.''" "lower_char CHR ''p'' = CHR ''p''"
  "lower_char CHR ''n'' = CHR ''n''" "lower_char CHR ''g'' = CHR ''g''"
  by (simp_all add: lower_char_def less_eq_char_def)

lemma long_video_listing: "image_files [''images/v_5000s.png'', ''images/v_10000s.png'']
       = [''images/v_10000s.png'', ''images/v_5000s.png'']"
  by (simp add: image_files_def long_video_suffix lower_png less_char_def less_eq_char_def)

text \<open>
  Claim C8. The name of the image for a timestamp is the title prefix followed by the
  seconds padded to four digits, and the claim is that the names are ordered as the
  timestamps are. The padding stops at four digits: for the timestamps 5000 and 10000 of
  one extraction (a video of 10000 seconds sampled every 5000 seconds) the name for
  10000 is the smaller one, and the sorted listing that the document build uses puts the
  later frame first.
\<close>

theorem long_video_order:
  "(5000::int) < 10000
   \<and> output_file ''images'' ''v'' Highest 5000 = ''images/v_5000s.png''
   \<and> output_file ''images'' ''v'' Highest 10000 = ''images/v_10000s.png''
   \<and> output_file ''images'' ''v'' Highest 10000 < output_file ''images'' ''v'' Highest 5000
   \<and> image_files [output_file ''images'' ''v'' Highest 5000,
                    output_file ''images'' ''v'' Highest 10000]
       = [''images/v_10000s.png'', ''images/v_5000s.png'']"
  by (simp only: long_video_names long_video_names_less long_video_listing) simp

subsection \<open>The extraction names every timestamp differently\<close>

lemma digit_value_digit_char: "d < 10 \<Longrightarrow> digit_value (digit_char d) = d"
  by (simp add: digit_value_def digit_char_def)

lemma undec_snoc: "undec (s @ [c]) = 10 * undec s + digit_value c"
  by (simp add: undec_def)

lemma undec_dec: "undec (dec n) = n"
proof (induction n rule: dec.induct)
  case (1 n)
  show ?case
  proof (cases "n < 10")
    case True
    then show ?thesis by (simp add: dec_digit undec_def digit_value_digit_char)
  next
    case False
    then have "undec (dec (n div 10)) = n div 10" using 1 by simp
    with False show ?thesis by (simp add: dec_step undec_snoc digit_value_digit_char)
  qed
qed

lemma digit_value_zero: "digit_value CHR ''0'' = 0"
  by (simp add: digit_value_def)

lemma fold_zeros: "foldl (\<lambda>a c. 10 * a + digit_value c) 0 (replicate k CHR ''0'') = 0"
  by (induction k) (simp_all add: digit_value_zero)

lemma undec_zfill: "undec (zfill w s) = undec s"
  by (simp add: undec_def zfill_def fold_zeros)

lemma format_04d_inj:
  assumes "0 \<le> t1" and "0 \<le> t2" and "format_04d t1 = format_04d t2"
  shows "t1 = t2"
proof -
  from assms have "undec (zfill 4 (dec (nat t1))) = undec (zfill 4 (dec (nat t2)))"
    by (simp add: format_04d_def)
  then have "nat t1 = nat t2" by (simp add: undec_zfill undec_dec)
  with assms show ?thesis by simp
qed

lemma output_file_inj:
  assumes "0 \<le> t1" and "0 \<le> t2" and "output_file dir p q t1 = output_file dir p q t2"
  shows "t1 = t2"
proof -
  obtain x where x: "\<And>r. path_join dir (p @ CHR ''_'' # r) = x @ CHR ''_'' # r"
    using path_join_shape by blast
  from assms(3) have "format_04d t1 = format_04d t2"
    by (cases q) (simp_all add: output_file_def time_str_def x)
  with assms(1,2) show ?thesis by (rule format_04d_inj)
qed

lemma extract_loop_files_aux:
  assumes "extract_loop cap D I dir p q n t fs w = Some y"
  shows "0 < I \<longrightarrow> 0 \<le> t \<longrightarrow> n = length fs \<longrightarrow>
      (\<exists>ts. fs = map (output_file dir p q) ts \<and> distinct ts \<and> (\<forall>u\<in>set ts. 0 \<le> u \<and> u < t)) \<longrightarrow>
      (\<forall>n' fs'. fst y = Inr (n', fs') \<longrightarrow> distinct fs' \<and> n' = length fs')"
proof (rule extract_loop.raw_induct [where P = "\<lambda>cap D I dir p q n t fs w y.
    0 < I \<longrightarrow> 0 \<le> t \<longrightarrow> n = length fs \<longrightarrow>
      (\<exists>ts. fs = map (output_file dir p q) ts \<and> distinct ts \<and> (\<forall>u\<in>set ts. 0 \<le> u \<and> u < t)) \<longrightarrow>
      (\<forall>n' fs'. fst y = Inr (n', fs') \<longrightarrow> distinct fs' \<and> n' = length fs')", OF _ assms])
  fix loop :: "(int \<Rightarrow> bytes option) \<Rightarrow> real \<Rightarrow> int \<Rightarrow> path \<Rightarrow> string \<Rightarrow> quality \<Rightarrow>
      nat \<Rightarrow> int \<Rightarrow> path list \<Rightarrow> world \<Rightarrow> ((py_error + nat \<times> path list) \<times> world) option"
    and cap D I dir p q n t fs w y
  assume IH: "\<And>cap D I dir p q n t fs w y. loop cap D I dir p q n t fs w = Some y \<Longrightarrow>
      0 < I \<longrightarrow> 0 \<le> t \<longrightarrow> n = length fs \<longrightarrow>
      (\<exists>ts. fs = map (output_file dir p q) ts \<and> distinct ts \<and> (\<forall>u\<in>set ts. 0 \<le> u \<and> u < t)) \<longrightarrow>
      (\<forall>n' fs'. fst y = Inr (n', fs') \<longrightarrow> distinct fs' \<and> n' = length fs')"
    and eq: "(if of_int t \<le> D then
        (let f = output_file dir p q t;
             w1 = w\<lparr>ffmpeg_calls := ffmpeg_calls w @ [t]\<rparr>
         in case cap t of
              None \<Rightarrow> Some (Inl CalledProcessError, w1)
            | Some img \<Rightarrow>
                (let w2 = w1\<lparr>disk := write_file f img (disk w1)\<rparr>
                 in if D = 0 then Some (Inl ZeroDivisionError, w2)
                    else if \<not> format_time_ok t then Some (Inl OverflowError, w2)
                    else loop cap D I dir p q (n + 1) (t + I) (fs @ [f]) w2))
      else Some (Inr (n, fs), w)) = Some y"
  show "0 < I \<longrightarrow> 0 \<le> t \<longrightarrow> n = length fs \<longrightarrow>
      (\<exists>ts. fs = map (output_file dir p q) ts \<and> distinct ts \<and> (\<forall>u\<in>set ts. 0 \<le> u \<and> u < t)) \<longrightarrow>
      (\<forall>n' fs'. fst y = Inr (n', fs') \<longrightarrow> distinct fs' \<and> n' = length fs')"
  proof (intro impI allI)
    fix n' fs'
    assume I: "0 < I" and t: "0 \<le> t" and n: "n = length fs"
      and inv: "\<exists>ts. fs = map (output_file dir p q) ts \<and> distinct ts \<and> (\<forall>u\<in>set ts. 0 \<le> u \<and> u < t)"
      and res: "fst y = Inr (n', fs')"
    from inv obtain ts where ts: "fs = map (output_file dir p q) ts" "distinct ts"
      "\<forall>u\<in>set ts. 0 \<le> u \<and> u < t" by blast
    show "distinct fs' \<and> n' = length fs'"
    proof (cases "of_int t \<le> D")
      case False
      with eq res have "fs' = fs" "n' = n" by auto
      moreover have "inj_on (output_file dir p q) (set ts)"
        using ts(3) by (auto intro!: inj_onI dest: output_file_inj [rotated 2])
      ultimately show ?thesis using ts n by (simp add: distinct_map)
    next
      case True
      show ?thesis
      proof (cases "cap t")
        case None
        with True eq res show ?thesis by auto
      next
        case (Some img)
        show ?thesis
        proof (cases "D = 0 \<or> \<not> format_time_ok t")
          case True
          with \<open>of_int t \<le> D\<close> Some eq res show ?thesis by (auto simp: Let_def split: if_splits)
        next
          case False
          let ?f = "output_file dir p q t"
          let ?w2 = "w\<lparr>ffmpeg_calls := ffmpeg_calls w @ [t],
                       disk := write_file ?f img (disk w)\<rparr>"
          from False \<open>of_int t \<le> D\<close> Some eq
          have run: "loop cap D I dir p q (n + 1) (t + I) (fs @ [?f]) ?w2 = Some y"
            by (simp add: Let_def)
          have inv': "\<exists>ts'. fs @ [?f] = map (output_file dir p q) ts' \<and> distinct ts'
              \<and> (\<forall>u\<in>set ts'. 0 \<le> u \<and> u < t + I)"
          proof (intro exI [of _ "ts @ [t]"] conjI ballI)
            show "fs @ [?f] = map (output_file dir p q) (ts @ [t])" using ts(1) by simp
            show "distinct (ts @ [t])" using ts(2,3) by auto
          next
            fix u assume "u \<in> set (ts @ [t])"
            then show "0 \<le> u" using ts(3) t by auto
          next
            fix u assume "u \<in> set (ts @ [t])"
            then show "u < t + I" using ts(3) I by auto
          qed
          have "0 \<le> t + I" using t I by simp
          moreover have "n + 1 = length (fs @ [?f])" using n by simp
          ultimately show ?thesis using IH [OF run] I inv' res by blast
        qed
      qed
    qed
  qed
qed

text \<open>
  Whatever the extraction returns, the paths are pairwise different and the count is
  their number: the artifacts handed to the duplicate removal are distinct files.
\<close>

lemma extraction_files_distinct:
  assumes "extract_high_quality_screenshots pr cap dir I p q w = Some ((n, fs), w')"
  shows "distinct fs \<and> n = length fs"
proof (cases pr)
  case (Inl e)
  with assms show ?thesis
    by (auto simp: extract_high_quality_screenshots_def extract_run_def handler_def)
next
  case (Inr D)
  with assms obtain r where run: "extract_loop cap D I dir p q 0 0 [] w = Some (r, w')"
    and h: "handler r = (n, fs)"
    by (auto simp: extract_high_quality_screenshots_def extract_run_def)
  show ?thesis
  proof (cases r)
    case (Inl e)
    with h show ?thesis by (simp add: handler_def)
  next
    case (Inr v)
    with h have v: "r = Inr (n, fs)" by (simp add: handler_def)
    show ?thesis
    proof (cases "0 < I")
      case True
      from extract_loop_files_aux [OF run] True v show ?thesis by simp
    next
      case False
      show ?thesis
      proof (cases "of_int 0 \<le> D")
        case True
        from extract_loop_nonpos_aux [OF run] False True v show ?thesis by simp
      next
        case False
        from run extract_loop_exit [where t = 0 and D = D, OF False] v show ?thesis by simp
      qed
    qed
  qed
qed

subsection \<open>One iteration of duplicate removal\<close>

lemma step_store:
  "store (dedup_step H x s) =
     (if removes H s x then (store s)\<lparr>files := (files (store s))(x := None)\<rparr> else store s)"
  by (auto simp: dedup_step_def removes_def os_remove_def get_image_hash_def Let_def
      split: option.splits if_splits)

lemma step_count:
  "duplicates_removed (dedup_step H x s) =
     duplicates_removed s + (if removes H s x then 1 else 0)"
  by (auto simp: dedup_step_def removes_def os_remove_def get_image_hash_def Let_def
      split: option.splits if_splits)

lemma step_hash_calls: "hash_calls (dedup_step H x s) = hash_calls s @ [x]"
  by (auto simp: dedup_step_def os_remove_def Let_def split: option.splits if_splits sum.splits)

lemma step_dom_hashes:
  "dom (hashes (dedup_step H x s)) =
     dom (hashes s) \<union> (case get_image_hash H (store s) x of
                          None \<Rightarrow> {} | Some h \<Rightarrow> if h = [] then {} else {h})"
  by (auto simp: dedup_step_def os_remove_def Let_def split: option.splits if_splits sum.splits)

lemma step_readable: "readable (store (dedup_step H x s)) = readable (store s)"
  by (simp add: step_store)

lemma step_removable: "removable (store (dedup_step H x s)) = removable (store s)"
  by (simp add: step_store)

lemma step_files_other: "q \<noteq> x \<Longrightarrow> files (store (dedup_step H x s)) q = files (store s) q"
  by (simp add: step_store)

lemma step_files_self:
  "files (store (dedup_step H x s)) x = (if removes H s x then None else files (store s) x)"
  by (simp add: step_store)

lemma step_hash_other:
  "q \<noteq> x \<Longrightarrow> get_image_hash H (store (dedup_step H x s)) q = get_image_hash H (store s) q"
  by (simp add: get_image_hash_def step_files_other step_readable split: option.splits)

lemma loop_readable: "readable (store (dedup_loop H xs s)) = readable (store s)"
  by (induction xs arbitrary: s) (simp_all add: step_readable)

lemma loop_removable: "removable (store (dedup_loop H xs s)) = removable (store s)"
  by (induction xs arbitrary: s) (simp_all add: step_removable)

lemma loop_hash_calls: "hash_calls (dedup_loop H xs s) = hash_calls s @ xs"
  by (induction xs arbitrary: s) (simp_all add: step_hash_calls)

lemma loop_files_notin:
  "p \<notin> set xs \<Longrightarrow> files (store (dedup_loop H xs s)) p = files (store s) p"
  by (induction xs arbitrary: s) (auto simp: step_files_other)

lemma loop_files_shrink:
  "files (store (dedup_loop H xs s)) p = None \<or>
   files (store (dedup_loop H xs s)) p = files (store s) p"
proof (induction xs arbitrary: s)
  case Nil
  show ?case by simp
next
  case (Cons x xs)
  from Cons [of "dedup_step H x s"] show ?case
    by (cases "p = x") (auto simp: step_files_other step_files_self split: if_splits)
qed

lemma loop_files_gone: "files (store s) p = None \<Longrightarrow> files (store (dedup_loop H xs s)) p = None"
  using loop_files_shrink [of H xs s p] by auto

lemma loop_dom_hashes_mono: "dom (hashes s) \<subseteq> dom (hashes (dedup_loop H xs s))"
proof (induction xs arbitrary: s)
  case Nil
  show ?case by simp
next
  case (Cons x xs)
  have "dom (hashes s) \<subseteq> dom (hashes (dedup_step H x s))" by (simp add: step_dom_hashes)
  with Cons [of "dedup_step H x s"] show ?case by auto
qed

subsection \<open>Counting the removed files\<close>

lemma removes_exists: "removes H s x \<Longrightarrow> files (store s) x \<noteq> None"
  by (auto simp: removes_def get_image_hash_def split: option.splits)

lemma loop_count:
  assumes "distinct xs"
  shows "length (filter (\<lambda>p. \<not> deleted (store s) (store (dedup_loop H xs s)) p) xs)
           + duplicates_removed (dedup_loop H xs s) = length xs + duplicates_removed s"
  using assms
proof (induction xs arbitrary: s)
  case Nil
  show ?case by simp
next
  case (Cons x xs)
  let ?s1 = "dedup_step H x s"
  let ?s' = "dedup_loop H xs ?s1"
  from Cons.prems have x: "x \<notin> set xs" and d: "distinct xs" by simp_all
  have ne: "q \<noteq> x" if "q \<in> set xs" for q using that x by auto
  have same: "filter (\<lambda>p. \<not> deleted (store s) (store ?s') p) xs =
              filter (\<lambda>p. \<not> deleted (store ?s1) (store ?s') p) xs"
    by (intro filter_cong) (simp_all add: deleted_def step_files_other ne)
  have end_x: "files (store ?s') x = files (store ?s1) x"
    using x by (rule loop_files_notin)
  have del_x: "deleted (store s) (store ?s') x = removes H s x"
    using removes_exists [of H s x] by (auto simp: deleted_def end_x step_files_self)
  from Cons.IH [OF d, of ?s1] show ?case
    by (simp add: same del_x step_count)
qed

lemma not_deleted_same: "\<not> deleted st st p"
  by (auto simp: deleted_def)

text \<open>
  Claim C5. For every input sequence of frame artifacts (distinct paths), the number of
  survivors after the pass plus the returned count of removed files equals the length of
  the input.
\<close>

theorem survivors_plus_removed:
  assumes "distinct xs"
  shows "length (survivors st (storage_after (remove_duplicate_screenshots H st xs)) xs)
           + removed_count (remove_duplicate_screenshots H st xs) = length xs"
proof (cases "length xs \<le> 1")
  case True
  then show ?thesis
    by (simp add: remove_duplicate_screenshots_def survivors_def not_deleted_same)
next
  case False
  with loop_count [OF assms, of "initial_state st" H] show ?thesis
    by (simp add: remove_duplicate_screenshots_def survivors_def Let_def initial_state_def)
qed

subsection \<open>Artifacts without a fingerprint\<close>

lemma hash_none_step:
  "get_image_hash H (store s) p = None \<Longrightarrow> get_image_hash H (store (dedup_step H x s)) p = None"
  by (auto simp: get_image_hash_def step_store split: option.splits if_splits)

lemma hash_none_not_removed: "get_image_hash H (store s) p = None \<Longrightarrow> \<not> removes H s p"
  by (simp add: removes_def)

lemma hash_none_step_files:
  "get_image_hash H (store s) p = None \<Longrightarrow> files (store (dedup_step H x s)) p = files (store s) p"
  by (cases "p = x") (simp_all add: step_files_other step_files_self hash_none_not_removed)

lemma hash_none_loop_files:
  "get_image_hash H (store s) p = None \<Longrightarrow> files (store (dedup_loop H xs s)) p = files (store s) p"
proof (induction xs arbitrary: s)
  case Nil
  show ?case by simp
next
  case (Cons x xs)
  from Cons.IH [OF hash_none_step [OF Cons.prems]] hash_none_step_files [OF Cons.prems]
  show ?case by simp
qed

lemma hash_none_loop:
  "get_image_hash H (store s) p = None \<Longrightarrow> get_image_hash H (store (dedup_loop H xs s)) p = None"
  by (induction xs arbitrary: s) (simp_all add: hash_none_step)

text \<open>The log of fingerprint computations does not influence the rest of the state.\<close>

lemma step_log_irrelevant:
  "dedup_step H x (s\<lparr>hash_calls := l\<rparr>) = (dedup_step H x s)\<lparr>hash_calls := l @ [x]\<rparr>"
  by (auto simp: dedup_step_def os_remove_def Let_def split: option.splits sum.splits)

lemma loop_log_irrelevant:
  "dedup_loop H xs (s\<lparr>hash_calls := l\<rparr>) = (dedup_loop H xs s)\<lparr>hash_calls := l @ xs\<rparr>"
proof (induction xs arbitrary: s l)
  case Nil
  show ?case by simp
next
  case (Cons x xs)
  have "dedup_loop H xs ((dedup_step H x s)\<lparr>hash_calls := l @ [x]\<rparr>) =
        (dedup_loop H xs (dedup_step H x s))\<lparr>hash_calls := (l @ [x]) @ xs\<rparr>"
    by (rule Cons.IH)
  then show ?case by (simp add: step_log_irrelevant)
qed

lemma step_skip:
  "get_image_hash H (store s) p = None \<Longrightarrow> dedup_step H p s = s\<lparr>hash_calls := hash_calls s @ [p]\<rparr>"
  by (simp add: dedup_step_def Let_def)

lemma loop_append: "dedup_loop H (as @ bs) s = dedup_loop H bs (dedup_loop H as s)"
  by (induction as arbitrary: s) simp_all

lemma loop_skip:
  assumes "get_image_hash H (store s) p = None"
  shows "dedup_loop H (as @ p # bs) s =
         (dedup_loop H (as @ bs) s)\<lparr>hash_calls := hash_calls s @ as @ p # bs\<rparr>"
proof -
  let ?m = "dedup_loop H as s"
  have "get_image_hash H (store ?m) p = None" using assms by (rule hash_none_loop)
  then have "dedup_loop H (as @ p # bs) s = dedup_loop H bs (?m\<lparr>hash_calls := hash_calls ?m @ [p]\<rparr>)"
    by (simp add: loop_append step_skip)
  also have "\<dots> = (dedup_loop H bs ?m)\<lparr>hash_calls := (hash_calls ?m @ [p]) @ bs\<rparr>"
    by (rule loop_log_irrelevant)
  finally show ?thesis by (simp add: loop_append loop_hash_calls)
qed

lemma short_loop_removes_nothing:
  assumes "length xs \<le> 1"
  shows "store (dedup_loop H xs (initial_state st)) = st
       \<and> duplicates_removed (dedup_loop H xs (initial_state st)) = 0"
proof (cases xs)
  case Nil
  then show ?thesis by (simp add: initial_state_def)
next
  case (Cons x ys)
  with assms have "ys = []" by simp
  moreover have "\<not> removes H (initial_state st) x" by (simp add: removes_def initial_state_def)
  ultimately show ?thesis using Cons by (simp add: step_store step_count initial_state_def)
qed

lemma remove_duplicates_as_loop:
  "storage_after (remove_duplicate_screenshots H st xs) = store (dedup_loop H xs (initial_state st))
 \<and> removed_count (remove_duplicate_screenshots H st xs) =
     duplicates_removed (dedup_loop H xs (initial_state st))"
  using short_loop_removes_nothing [of xs H st]
  by (simp add: remove_duplicate_screenshots_def Let_def)

text \<open>
  Claim C6. When the fingerprint of an artifact cannot be computed (the file is missing
  or unreadable), the pass goes on: the file of that artifact is left as it was, the
  artifact is a survivor, and the remaining artifacts are treated exactly as if it were
  not in the input (same storage and same count as the pass over the other artifacts).
\<close>

theorem unreadable_artifact_kept:
  assumes "get_image_hash H st p = None"
  shows "files (storage_after (remove_duplicate_screenshots H st (as @ p # bs))) p = files st p
       \<and> p \<in> set (survivors st (storage_after (remove_duplicate_screenshots H st (as @ p # bs)))
                    (as @ p # bs))
       \<and> storage_after (remove_duplicate_screenshots H st (as @ p # bs)) =
           storage_after (remove_duplicate_screenshots H st (as @ bs))
       \<and> removed_count (remove_duplicate_screenshots H st (as @ p # bs)) =
           removed_count (remove_duplicate_screenshots H st (as @ bs))"
proof -
  have h: "get_image_hash H (store (initial_state st)) p = None"
    using assms by (simp add: initial_state_def)
  have kept: "files (store (dedup_loop H (as @ p # bs) (initial_state st))) p = files st p"
    using hash_none_loop_files [OF h] by (simp add: initial_state_def)
  have skip: "dedup_loop H (as @ p # bs) (initial_state st) =
     (dedup_loop H (as @ bs) (initial_state st))\<lparr>hash_calls := hash_calls (initial_state st) @ as @ p # bs\<rparr>"
    by (rule loop_skip [OF h])
  have surv: "\<not> deleted st (store (dedup_loop H (as @ p # bs) (initial_state st))) p"
    using kept by (auto simp: deleted_def)
  show ?thesis
    using kept surv
    by (simp add: remove_duplicates_as_loop survivors_def) (simp add: skip)
qed

subsection \<open>A second pass\<close>

lemma survive_content:
  "files (store (dedup_loop H xs s)) p = Some c \<Longrightarrow> files (store s) p = Some c"
  using loop_files_shrink [of H xs s p] by auto

lemma kept_not_seen:
  assumes "files (store (dedup_loop H (as @ p # bs) s)) p = Some c"
    and "readable (store s) p" and "removable (store s) p" and "H c \<noteq> []"
  shows "H c \<notin> dom (hashes s)
       \<and> (\<forall>q\<in>set as. \<forall>c'. files (store (dedup_loop H (as @ p # bs) s)) q = Some c'
              \<and> readable (store s) q \<longrightarrow> H c' \<noteq> H c)"
  using assms
proof (induction as arbitrary: s)
  case Nil
  from Nil(1) have "files (store (dedup_loop H bs (dedup_step H p s))) p = Some c" by simp
  then have after: "files (store (dedup_step H p s)) p = Some c"
    by (rule survive_content)
  then have nr: "\<not> removes H s p" and before: "files (store s) p = Some c"
    by (auto simp: step_files_self split: if_splits)
  from before Nil(2) have "get_image_hash H (store s) p = Some (H c)"
    by (simp add: get_image_hash_def)
  with nr Nil(3,4) show ?case by (auto simp: removes_def)
next
  case (Cons a as)
  let ?s1 = "dedup_step H a s"
  let ?T = "store (dedup_loop H ((a # as) @ p # bs) s)"
  have T: "?T = store (dedup_loop H (as @ p # bs) ?s1)" by simp
  have pre: "files (store (dedup_loop H (as @ p # bs) ?s1)) p = Some c"
    "readable (store ?s1) p" "removable (store ?s1) p"
    using Cons.prems by (simp_all add: step_readable step_removable)
  from Cons.IH [OF pre Cons.prems(4)]
  have IH: "H c \<notin> dom (hashes ?s1)"
    "\<forall>q\<in>set as. \<forall>c'. files ?T q = Some c' \<and> readable (store s) q \<longrightarrow> H c' \<noteq> H c"
    by (simp_all add: step_readable)
  have first: "H c \<notin> dom (hashes s)" using IH(1) by (auto simp: step_dom_hashes)
  have head: "H c' \<noteq> H c" if "files ?T a = Some c'" "readable (store s) a" for c'
  proof
    assume eq: "H c' = H c"
    from that(1) have "files (store s) a = Some c'" by (rule survive_content)
    with that(2) have "get_image_hash H (store s) a = Some (H c')"
      by (simp add: get_image_hash_def)
    with eq Cons.prems(4) have "H c \<in> dom (hashes ?s1)"
      by (simp add: step_dom_hashes)
    with IH(1) show False by simp
  qed
  show ?case
  proof (intro conjI ballI allI impI)
    show "H c \<notin> dom (hashes s)" by (rule first)
  next
    fix q c'
    assume q: "q \<in> set (a # as)"
      and f: "files ?T q = Some c' \<and> readable (store s) q"
    show "H c' \<noteq> H c"
    proof (cases "q = a")
      case True
      with f head show ?thesis by blast
    next
      case False
      with q have "q \<in> set as" by simp
      with IH(2) f show ?thesis by blast
    qed
  qed
qed

lemma no_removal:
  assumes "\<And>as p bs c. ys = as @ p # bs \<Longrightarrow> files (store s) p = Some c \<Longrightarrow>
      readable (store s) p \<Longrightarrow> removable (store s) p \<Longrightarrow> H c \<noteq> [] \<Longrightarrow>
      H c \<notin> dom (hashes s) \<and>
      (\<forall>q\<in>set as. \<forall>c'. files (store s) q = Some c' \<and> readable (store s) q \<longrightarrow> H c' \<noteq> H c)"
  shows "store (dedup_loop H ys s) = store s
       \<and> duplicates_removed (dedup_loop H ys s) = duplicates_removed s"
  using assms
proof (induction ys arbitrary: s)
  case Nil
  show ?case by simp
next
  case (Cons y ys)
  let ?s1 = "dedup_step H y s"
  have nr: "\<not> removes H s y"
  proof
    assume "removes H s y"
    then obtain c where c: "files (store s) y = Some c" "readable (store s) y"
      "removable (store s) y" "H c \<noteq> []" "hashes s (H c) \<noteq> None"
      by (auto simp: removes_def get_image_hash_def split: option.splits if_splits)
    from Cons.prems [of "[]" y ys c] c show False by auto
  qed
  then have st1: "store ?s1 = store s" and n1: "duplicates_removed ?s1 = duplicates_removed s"
    by (simp_all add: step_store step_count)
  have "store (dedup_loop H ys ?s1) = store ?s1
      \<and> duplicates_removed (dedup_loop H ys ?s1) = duplicates_removed ?s1"
  proof (rule Cons.IH)
    fix as p bs c
    assume split: "ys = as @ p # bs" and p: "files (store ?s1) p = Some c"
      "readable (store ?s1) p" "removable (store ?s1) p" "H c \<noteq> []"
    from Cons.prems [of "y # as" p bs c] split p
    have orig: "H c \<notin> dom (hashes s)"
      "\<forall>q\<in>set (y # as). \<forall>c'. files (store s) q = Some c' \<and> readable (store s) q \<longrightarrow> H c' \<noteq> H c"
      by (simp_all add: st1)
    have "H c \<notin> dom (hashes ?s1)"
      using orig by (auto simp: step_dom_hashes get_image_hash_def split: option.splits if_splits)
    moreover have "\<forall>q\<in>set as. \<forall>c'. files (store ?s1) q = Some c' \<and> readable (store ?s1) q
        \<longrightarrow> H c' \<noteq> H c"
      using orig(2) by (simp add: st1)
    ultimately show "H c \<notin> dom (hashes ?s1) \<and>
      (\<forall>q\<in>set as. \<forall>c'. files (store ?s1) q = Some c' \<and> readable (store ?s1) q \<longrightarrow> H c' \<noteq> H c)"
      by simp
  qed
  then show ?case by (simp add: st1 n1)
qed

lemma filter_split:
  "filter Q xs = as' @ p # bs' \<Longrightarrow> \<exists>as bs. xs = as @ p # bs \<and> set as' \<subseteq> set as"
proof (induction xs arbitrary: as')
  case Nil
  then show ?case by simp
next
  case (Cons x xs)
  show ?case
  proof (cases "Q x")
    case False
    with Cons.prems have "filter Q xs = as' @ p # bs'" by simp
    from Cons.IH [OF this] obtain as bs where "xs = as @ p # bs" "set as' \<subseteq> set as" by blast
    then have "x # xs = (x # as) @ p # bs \<and> set as' \<subseteq> set (x # as)" by auto
    then show ?thesis by blast
  next
    case True
    show ?thesis
    proof (cases as')
      case Nil
      with True Cons.prems have "x = p" by simp
      then have "x # xs = [] @ p # xs \<and> set as' \<subseteq> set []" using Nil by simp
      then show ?thesis by blast
    next
      case (Cons a as'')
      with True Cons.prems have a: "a = x" and rest: "filter Q xs = as'' @ p # bs'" by simp_all
      from Cons.IH [OF rest] obtain as bs where "xs = as @ p # bs" "set as'' \<subseteq> set as" by blast
      then have "x # xs = (x # as) @ p # bs \<and> set as' \<subseteq> set (x # as)" using Cons a by auto
      then show ?thesis by blast
    qed
  qed
qed

lemma second_pass_removes_nothing:
  "duplicates_removed
     (dedup_loop H (survivors st (store (dedup_loop H xs (initial_state st))) xs)
        (initial_state (store (dedup_loop H xs (initial_state st))))) = 0"
proof -
  define T where "T = store (dedup_loop H xs (initial_state st))"
  let ?ys = "survivors st T xs"
  have "store (dedup_loop H ?ys (initial_state T)) = store (initial_state T)
      \<and> duplicates_removed (dedup_loop H ?ys (initial_state T)) = duplicates_removed (initial_state T)"
  proof (rule no_removal)
    fix as' p bs' c
    assume split: "?ys = as' @ p # bs'"
      and p: "files (store (initial_state T)) p = Some c" "readable (store (initial_state T)) p"
        "removable (store (initial_state T)) p" "H c \<noteq> []"
    from split obtain as bs where xs: "xs = as @ p # bs" and sub: "set as' \<subseteq> set as"
      unfolding survivors_def by (blast dest: filter_split)
    have fl: "readable T = readable st" "removable T = removable st"
      by (simp_all add: T_def loop_readable loop_removable initial_state_def)
    have "files (store (dedup_loop H (as @ p # bs) (initial_state st))) p = Some c"
      using p(1) by (simp add: T_def xs initial_state_def)
    moreover have "readable (store (initial_state st)) p" "removable (store (initial_state st)) p"
      using p(2,3) fl by (simp_all add: initial_state_def)
    ultimately have key: "\<forall>q\<in>set as. \<forall>c'.
        files (store (dedup_loop H (as @ p # bs) (initial_state st))) q = Some c'
          \<and> readable (store (initial_state st)) q \<longrightarrow> H c' \<noteq> H c"
      using kept_not_seen [of H as p bs "initial_state st" c] p(4) by blast
    have "\<forall>q\<in>set as'. \<forall>c'. files (store (initial_state T)) q = Some c'
        \<and> readable (store (initial_state T)) q \<longrightarrow> H c' \<noteq> H c"
    proof (intro ballI allI impI)
      fix q c'
      assume q: "q \<in> set as'"
        and f: "files (store (initial_state T)) q = Some c' \<and> readable (store (initial_state T)) q"
      from q sub have "q \<in> set as" by blast
      moreover from f have "files (store (dedup_loop H (as @ p # bs) (initial_state st))) q = Some c'"
        "readable (store (initial_state st)) q"
        using fl by (simp_all add: T_def xs initial_state_def)
      ultimately show "H c' \<noteq> H c" using key by blast
    qed
    moreover have "H c \<notin> dom (hashes (initial_state T))" by (simp add: initial_state_def)
    ultimately show "H c \<notin> dom (hashes (initial_state T)) \<and>
      (\<forall>q\<in>set as'. \<forall>c'. files (store (initial_state T)) q = Some c'
        \<and> readable (store (initial_state T)) q \<longrightarrow> H c' \<noteq> H c)"
      by simp
  qed
  then show ?thesis unfolding T_def by (simp add: initial_state_def)
qed

text \<open>
  Claim C7. Duplicate removal is idempotent: a second pass over the survivors of a first
  pass removes nothing and returns 0. And a pass over fewer than two artifacts returns 0
  at once, without computing a fingerprint and without touching the storage.
\<close>

theorem deduplicate_idempotent:
  "removed_count
     (remove_duplicate_screenshots H
        (storage_after (remove_duplicate_screenshots H st xs))
        (survivors st (storage_after (remove_duplicate_screenshots H st xs)) xs)) = 0
   \<and> (length xs < 2 \<longrightarrow>
        removed_count (remove_duplicate_screenshots H st xs) = 0
        \<and> fingerprinted (remove_duplicate_screenshots H st xs) = []
        \<and> storage_after (remove_duplicate_screenshots H st xs) = st)"
proof -
  have "removed_count
     (remove_duplicate_screenshots H
        (storage_after (remove_duplicate_screenshots H st xs))
        (survivors st (storage_after (remove_duplicate_screenshots H st xs)) xs)) = 0"
    using second_pass_removes_nothing [of H st xs]
    by (simp only: remove_duplicates_as_loop)
  moreover have "length xs < 2 \<longrightarrow>
        removed_count (remove_duplicate_screenshots H st xs) = 0
        \<and> fingerprinted (remove_duplicate_screenshots H st xs) = []
        \<and> storage_after (remove_duplicate_screenshots H st xs) = st"
    by (simp add: remove_duplicate_screenshots_def)
  ultimately show ?thesis by simp
qed

subsection \<open>Which files a pass deletes\<close>

lemma hash_nonempty:
  "(\<And>b. H b \<noteq> []) \<Longrightarrow> get_image_hash H st p = Some h \<Longrightarrow> h \<noteq> []"
  by (auto simp: get_image_hash_def split: option.splits if_splits)

lemma loop_decides:
  assumes ne: "\<And>b. H b \<noteq> []"
  shows "distinct xs \<Longrightarrow> i < length xs \<Longrightarrow>
    files (store (dedup_loop H xs s)) (xs ! i) =
      (if (\<exists>h. get_image_hash H (store s) (xs ! i) = Some h
               \<and> (h \<in> dom (hashes s) \<or> (\<exists>j<i. get_image_hash H (store s) (xs ! j) = Some h)))
           \<and> removable (store s) (xs ! i)
       then None else files (store s) (xs ! i))"
proof (induction xs arbitrary: s i)
  case Nil
  then show ?case by simp
next
  case (Cons x xs)
  let ?s1 = "dedup_step H x s"
  from Cons.prems have x: "x \<notin> set xs" and d: "distinct xs" by simp_all
  show ?case
  proof (cases i)
    case 0
    have "files (store (dedup_loop H xs ?s1)) x = files (store ?s1) x"
      using x by (rule loop_files_notin)
    moreover have "removes H s x =
      ((\<exists>h. get_image_hash H (store s) x = Some h \<and> h \<in> dom (hashes s)) \<and> removable (store s) x)"
      using hash_nonempty [OF ne] by (auto simp: removes_def)
    ultimately show ?thesis using 0 by (auto simp: step_files_self)
  next
    case (Suc k)
    with Cons.prems have k: "k < length xs" by simp
    then have mem: "xs ! k \<in> set xs" by simp
    with x have nx: "xs ! k \<noteq> x" by auto
    have same: "get_image_hash H (store ?s1) q = get_image_hash H (store s) q" if "q \<in> set xs" for q
      using that x by (intro step_hash_other) auto
    have samej: "get_image_hash H (store ?s1) (xs ! j) = get_image_hash H (store s) (xs ! j)"
      if "j < k" for j using that k by (intro same) simp
    have exj: "(\<exists>j<k. get_image_hash H (store ?s1) (xs ! j) = Some h) \<longleftrightarrow>
        (\<exists>j<k. get_image_hash H (store s) (xs ! j) = Some h)" for h
      using samej by auto
    have domeq: "h \<in> dom (hashes ?s1) \<longleftrightarrow>
        h \<in> dom (hashes s) \<or> get_image_hash H (store s) x = Some h" for h
      using hash_nonempty [OF ne, where st = "store s" and p = x]
      by (cases "get_image_hash H (store s) x") (auto simp: step_dom_hashes)
    have ex: "(\<exists>j<Suc k. get_image_hash H (store s) ((x # xs) ! j) = Some h) \<longleftrightarrow>
        get_image_hash H (store s) x = Some h
        \<or> (\<exists>j<k. get_image_hash H (store s) (xs ! j) = Some h)" for h
      by (auto simp: less_Suc_eq_0_disj)
    have "files (store (dedup_loop H xs ?s1)) (xs ! k) =
      (if (\<exists>h. get_image_hash H (store ?s1) (xs ! k) = Some h
               \<and> (h \<in> dom (hashes ?s1) \<or> (\<exists>j<k. get_image_hash H (store ?s1) (xs ! j) = Some h)))
           \<and> removable (store ?s1) (xs ! k)
       then None else files (store ?s1) (xs ! k))"
      by (rule Cons.IH [OF d k])
    also have "\<dots> =
      (if (\<exists>h. get_image_hash H (store s) (xs ! k) = Some h
               \<and> ((h \<in> dom (hashes s) \<or> get_image_hash H (store s) x = Some h)
                   \<or> (\<exists>j<k. get_image_hash H (store s) (xs ! j) = Some h)))
           \<and> removable (store s) (xs ! k)
       then None else files (store s) (xs ! k))"
      by (simp add: same [OF mem] exj domeq step_removable step_files_other [OF nx]) blast
    finally show ?thesis using Suc by (simp add: ex disj_assoc) blast
  qed
qed

lemma removed_count_deleted:
  assumes "distinct xs"
  shows "removed_count (remove_duplicate_screenshots H st xs) =
         length (filter (deleted st (storage_after (remove_duplicate_screenshots H st xs))) xs)"
proof -
  let ?T = "store (dedup_loop H xs (initial_state st))"
  have "length (filter (\<lambda>p. \<not> deleted st ?T p) xs)
          + duplicates_removed (dedup_loop H xs (initial_state st)) = length xs"
    using loop_count [OF assms, of "initial_state st" H] by (simp add: initial_state_def)
  moreover have "length (filter (deleted st ?T) xs) + length (filter (\<lambda>p. \<not> deleted st ?T p) xs)
      = length xs"
    by (rule sum_length_filter_compl)
  ultimately show ?thesis by (simp add: remove_duplicates_as_loop)
qed

lemma later_duplicate_iff:
  "(later_duplicate H st xs i \<and> removable st (xs ! i)) =
     ((\<exists>h. get_image_hash H (store (initial_state st)) (xs ! i) = Some h
        \<and> (h \<in> dom (hashes (initial_state st))
             \<or> (\<exists>j<i. get_image_hash H (store (initial_state st)) (xs ! j) = Some h)))
      \<and> removable (store (initial_state st)) (xs ! i))"
  by (auto simp: later_duplicate_def fingerprint_def initial_state_def)

lemma files_after_pass:
  assumes "distinct xs" and "\<And>b. H b \<noteq> []" and "i < length xs"
  shows "files (storage_after (remove_duplicate_screenshots H st xs)) (xs ! i) =
     (if later_duplicate H st xs i \<and> removable st (xs ! i) then None else files st (xs ! i))"
proof -
  have st: "files (store (initial_state st)) (xs ! i) = files st (xs ! i)"
    by (simp add: initial_state_def)
  show ?thesis
    using loop_decides [where H = H and xs = xs and i = i and s = "initial_state st",
        OF assms(2) assms(1) assms(3)]
    by (simp only: remove_duplicates_as_loop later_duplicate_iff st)
qed

lemma two_identical_images:
  assumes "a \<noteq> b" and ne: "\<And>x. H x \<noteq> []"
    and h: "files st a = Some c" "files st b = Some c" "readable st a" "readable st b"
      "removable st b"
  shows "files (storage_after (remove_duplicate_screenshots H st [a, b])) a = Some c
       \<and> files (storage_after (remove_duplicate_screenshots H st [a, b])) b = None
       \<and> removed_count (remove_duplicate_screenshots H st [a, b]) = 1"
proof -
  let ?R = "remove_duplicate_screenshots H st [a, b]"
  let ?T = "storage_after ?R"
  have d: "distinct [a, b]" using assms(1) by simp
  have fa: "fingerprint H st a = Some (H c)" and fb: "fingerprint H st b = Some (H c)"
    using h by (simp_all add: fingerprint_def get_image_hash_def)
  have l0: "\<not> later_duplicate H st [a, b] 0" by (simp add: later_duplicate_def)
  have l1: "later_duplicate H st [a, b] (Suc 0)" using fa fb by (simp add: later_duplicate_def)
  have a: "files ?T a = Some c"
    using files_after_pass [where H = H and i = 0 and st = st and xs = "[a, b]", OF d ne] l0 h(1)
    by simp
  have b: "files ?T b = None"
    using files_after_pass [where H = H and i = "Suc 0" and st = st and xs = "[a, b]", OF d ne]
      l1 h(5)
    by simp
  have del: "deleted st ?T b" "\<not> deleted st ?T a"
    using a b h(1,2) by (simp_all add: deleted_def)
  have "removed_count ?R = length (filter (deleted st ?T) [a, b])"
    by (rule removed_count_deleted [OF d])
  with del have "removed_count ?R = 1" by simp
  with a b show ?thesis by simp
qed

text \<open>
  On the path of the orchestrator: the list that the extraction returns is distinct, so
  the survivors and the removed files of the pass over it add up to the extraction's
  count.
\<close>

lemma pipeline_counts:
  assumes "extract_high_quality_screenshots pr cap dir I p q w = Some ((n, fs), w1)"
  shows "distinct fs
       \<and> length (survivors (disk w1) (storage_after (remove_duplicate_screenshots H (disk w1) fs)) fs)
           + removed_count (remove_duplicate_screenshots H (disk w1) fs) = n"
proof -
  from extraction_files_distinct [OF assms] have d: "distinct fs" and n: "n = length fs"
    by simp_all
  let ?T = "storage_after (remove_duplicate_screenshots H (disk w1) fs)"
  have "length (filter (deleted (disk w1) ?T) fs)
          + length (filter (\<lambda>x. \<not> deleted (disk w1) ?T x) fs) = length fs"
    by (rule sum_length_filter_compl)
  with removed_count_deleted [OF d, of H "disk w1"] d n show ?thesis
    by (simp add: survivors_def)
qed

text \<open>
  Claim C1, as amended. For every input sequence of distinct artifacts (and a digest that
  is never empty), the pass deletes exactly the later duplicates whose removal succeeds:
  the artifact at position \<open>i\<close> is deleted when it has a fingerprint, an earlier
  artifact has the same fingerprint, and \<^verbatim>\<open>os.remove\<close> succeeds on it; every other file,
  in particular the first artifact of each fingerprint, stays as it was. The survivors
  are a subsequence of the input, the returned count is the number of deleted inputs,
  and of two byte-identical readable images exactly the later one is removed when it can
  be removed.
\<close>

theorem first_occurrence_kept:
  assumes "distinct xs" and "\<And>b. H b \<noteq> []"
  shows "(\<forall>i<length xs.
            files (storage_after (remove_duplicate_screenshots H st xs)) (xs ! i) =
              (if later_duplicate H st xs i \<and> removable st (xs ! i) then None
               else files st (xs ! i)))
       \<and> (\<forall>p. p \<notin> set xs \<longrightarrow>
              files (storage_after (remove_duplicate_screenshots H st xs)) p = files st p)
       \<and> subseq (survivors st (storage_after (remove_duplicate_screenshots H st xs)) xs) xs
       \<and> removed_count (remove_duplicate_screenshots H st xs) =
            length (filter (deleted st (storage_after (remove_duplicate_screenshots H st xs))) xs)
       \<and> (\<forall>a b c. xs = [a, b] \<and> files st a = Some c \<and> files st b = Some c
              \<and> readable st a \<and> readable st b \<and> removable st b \<longrightarrow>
              files (storage_after (remove_duplicate_screenshots H st xs)) a = Some c
              \<and> files (storage_after (remove_duplicate_screenshots H st xs)) b = None
              \<and> removed_count (remove_duplicate_screenshots H st xs) = 1)"
proof (intro conjI allI impI)
  fix i assume "i < length xs"
  then show "files (storage_after (remove_duplicate_screenshots H st xs)) (xs ! i) =
      (if later_duplicate H st xs i \<and> removable st (xs ! i) then None else files st (xs ! i))"
    by (rule files_after_pass [where H = H, OF assms(1) assms(2)])
next
  fix p assume "p \<notin> set xs"
  then show "files (storage_after (remove_duplicate_screenshots H st xs)) p = files st p"
    using loop_files_notin [of p xs H "initial_state st"]
    by (simp add: remove_duplicates_as_loop) (simp add: initial_state_def)
next
  show "subseq (survivors st (storage_after (remove_duplicate_screenshots H st xs)) xs) xs"
    by (simp add: survivors_def)
next
  show "removed_count (remove_duplicate_screenshots H st xs) =
      length (filter (deleted st (storage_after (remove_duplicate_screenshots H st xs))) xs)"
    by (rule removed_count_deleted [OF assms(1)])
next
  fix a b c
  assume h: "xs = [a, b] \<and> files st a = Some c \<and> files st b = Some c
      \<and> readable st a \<and> readable st b \<and> removable st b"
  then have xs: "xs = [a, b]" and f: "files st a = Some c" "files st b = Some c"
    "readable st a" "readable st b" "removable st b" by blast+
  from assms(1) xs have "a \<noteq> b" by simp
  note r = two_identical_images [where H = H, OF this assms(2) f]
  from r show "files (storage_after (remove_duplicate_screenshots H st xs)) a = Some c"
    by (simp only: xs)
  from r show "files (storage_after (remove_duplicate_screenshots H st xs)) b = None"
    by (simp only: xs)
  from r show "removed_count (remove_duplicate_screenshots H st xs) = 1"
    by (simp only: xs)
qed

subsection \<open>The pass on the example host\<close>

lemmas dedup_eval = remove_duplicate_screenshots_def Let_def initial_state_def dedup_step_def
  get_image_hash_def os_remove_def example_storage_def tag_digest_def

lemma example_pass:
  "removed_count (remove_duplicate_screenshots tag_digest example_storage
      [''a.png'', ''b.png'', ''c.png'']) = 1"
  "files (storage_after (remove_duplicate_screenshots tag_digest example_storage
      [''a.png'', ''b.png'', ''c.png''])) =
    [''a.png'' \<mapsto> ''x'', ''b.png'' \<mapsto> ''y'']"
  by (simp_all add: dedup_eval fun_eq_iff)

theorem first_occurrence_kept_witness:
  "distinct [''a.png'', ''b.png'', ''c.png''] \<and> (\<forall>b. tag_digest b \<noteq> [])
   \<and> files (storage_after (remove_duplicate_screenshots tag_digest example_storage
         [''a.png'', ''b.png'', ''c.png''])) (''a.png'') = Some ''x''
   \<and> files (storage_after (remove_duplicate_screenshots tag_digest example_storage
         [''a.png'', ''b.png'', ''c.png''])) (''c.png'') = None
   \<and> later_duplicate tag_digest example_storage [''a.png'', ''b.png'', ''c.png''] 2
   \<and> subseq (survivors example_storage
         (storage_after (remove_duplicate_screenshots tag_digest example_storage
            [''a.png'', ''b.png'', ''c.png''])) [''a.png'', ''b.png'', ''c.png''])
        [''a.png'', ''b.png'', ''c.png'']
   \<and> removed_count (remove_duplicate_screenshots tag_digest example_storage
         [''a.png'', ''b.png'', ''c.png'']) = 1"
proof -
  have d: "distinct [''a.png'', ''b.png'', ''c.png'']" by simp
  have ne: "\<And>b. tag_digest b \<noteq> []" by (simp add: tag_digest_def)
  have l2: "later_duplicate tag_digest example_storage [''a.png'', ''b.png'', ''c.png''] 2"
    unfolding later_duplicate_def fingerprint_def
    by (simp add: get_image_hash_def example_storage_def tag_digest_def exI [of _ 0])
  have l0: "\<not> later_duplicate tag_digest example_storage [''a.png'', ''b.png'', ''c.png''] 0"
    by (simp add: later_duplicate_def)
  note t = first_occurrence_kept [where H = tag_digest and st = example_storage
      and xs = "[''a.png'', ''b.png'', ''c.png'']", OF d ne]
  from t have idx: "\<forall>i<length [''a.png'', ''b.png'', ''c.png'']. 
      files (storage_after (remove_duplicate_screenshots tag_digest example_storage
         [''a.png'', ''b.png'', ''c.png''])) ([''a.png'', ''b.png'', ''c.png''] ! i) =
      (if later_duplicate tag_digest example_storage [''a.png'', ''b.png'', ''c.png''] i
            \<and> removable example_storage ([''a.png'', ''b.png'', ''c.png''] ! i)
       then None else files example_storage ([''a.png'', ''b.png'', ''c.png''] ! i))"
    by (rule conjunct1)
  from idx [rule_format, of 0] l0
  have a: "files (storage_after (remove_duplicate_screenshots tag_digest example_storage
         [''a.png'', ''b.png'', ''c.png''])) (''a.png'') = Some ''x''"
    by (simp add: example_storage_def)
  from idx [rule_format, of 2] l2
  have c: "files (storage_after (remove_duplicate_screenshots tag_digest example_storage
         [''a.png'', ''b.png'', ''c.png''])) (''c.png'') = None"
    by (simp add: example_storage_def)
  from t have s: "subseq (survivors example_storage
         (storage_after (remove_duplicate_screenshots tag_digest example_storage
            [''a.png'', ''b.png'', ''c.png''])) [''a.png'', ''b.png'', ''c.png''])
        [''a.png'', ''b.png'', ''c.png'']"
    by (elim conjE)
  show ?thesis using d ne a c l2 s by (simp add: example_pass(1))
qed

text \<open>
  A later duplicate whose removal fails stays on storage and is not counted: here the
  two images are byte-identical and \<^verbatim>\<open>os.remove\<close> fails on the second one.
\<close>

theorem unremovable_duplicate_counterexample:
  "fingerprint tag_digest (example_storage\<lparr>removable := (\<lambda>p. p \<noteq> ''c.png'')\<rparr>) ''a.png'' =
     fingerprint tag_digest (example_storage\<lparr>removable := (\<lambda>p. p \<noteq> ''c.png'')\<rparr>) ''c.png''
   \<and> fingerprint tag_digest (example_storage\<lparr>removable := (\<lambda>p. p \<noteq> ''c.png'')\<rparr>) ''c.png''
       = Some ''#x''
   \<and> files (storage_after (remove_duplicate_screenshots tag_digest
         (example_storage\<lparr>removable := (\<lambda>p. p \<noteq> ''c.png'')\<rparr>) [''a.png'', ''c.png'']))
         ''c.png'' = Some ''x''
   \<and> removed_count (remove_duplicate_screenshots tag_digest
         (example_storage\<lparr>removable := (\<lambda>p. p \<noteq> ''c.png'')\<rparr>) [''a.png'', ''c.png'']) = 0"
  by (simp add: dedup_eval fingerprint_def)

theorem survivors_plus_removed_witness:
  "distinct [''a.png'', ''b.png'', ''c.png'']
   \<and> length (survivors example_storage
        (storage_after (remove_duplicate_screenshots tag_digest example_storage
           [''a.png'', ''b.png'', ''c.png''])) [''a.png'', ''b.png'', ''c.png''])
       + removed_count (remove_duplicate_screenshots tag_digest example_storage
           [''a.png'', ''b.png'', ''c.png'']) = 3
   \<and> removed_count (remove_duplicate_screenshots tag_digest example_storage
           [''a.png'', ''b.png'', ''c.png'']) = 1"
  using survivors_plus_removed [where H = tag_digest and st = example_storage
      and xs = "[''a.png'', ''b.png'', ''c.png'']"]
  by (simp add: example_pass(1))

theorem unreadable_artifact_kept_witness:
  "get_image_hash tag_digest (example_storage\<lparr>readable := (\<lambda>p. p \<noteq> ''a.png'')\<rparr>) ''a.png'' = None
   \<and> files (storage_after (remove_duplicate_screenshots tag_digest
         (example_storage\<lparr>readable := (\<lambda>p. p \<noteq> ''a.png'')\<rparr>)
         ([] @ ''a.png'' # [''b.png'', ''c.png'']))) ''a.png'' = Some ''x''
   \<and> ''a.png'' \<in> set (survivors (example_storage\<lparr>readable := (\<lambda>p. p \<noteq> ''a.png'')\<rparr>)
         (storage_after (remove_duplicate_screenshots tag_digest
            (example_storage\<lparr>readable := (\<lambda>p. p \<noteq> ''a.png'')\<rparr>)
            ([] @ ''a.png'' # [''b.png'', ''c.png''])))
         ([] @ ''a.png'' # [''b.png'', ''c.png'']))
   \<and> removed_count (remove_duplicate_screenshots tag_digest
         (example_storage\<lparr>readable := (\<lambda>p. p \<noteq> ''a.png'')\<rparr>)
         ([] @ ''a.png'' # [''b.png'', ''c.png''])) = 0"
proof -
  have h: "get_image_hash tag_digest (example_storage\<lparr>readable := (\<lambda>p. p \<noteq> ''a.png'')\<rparr>) ''a.png''
      = None"
    by (simp add: get_image_hash_def example_storage_def)
  have n: "removed_count (remove_duplicate_screenshots tag_digest
         (example_storage\<lparr>readable := (\<lambda>p. p \<noteq> ''a.png'')\<rparr>) ([] @ [''b.png'', ''c.png''])) = 0"
    by (simp add: dedup_eval)
  have f: "files (example_storage\<lparr>readable := (\<lambda>p. p \<noteq> ''a.png'')\<rparr>) ''a.png'' = Some ''x''"
    by (simp add: example_storage_def)
  note t = unreadable_artifact_kept [OF h, of "[]" "[''b.png'', ''c.png'']"]
  have g1: "files (storage_after (remove_duplicate_screenshots tag_digest
         (example_storage\<lparr>readable := (\<lambda>p. p \<noteq> ''a.png'')\<rparr>)
         ([] @ ''a.png'' # [''b.png'', ''c.png'']))) ''a.png'' = Some ''x''"
    using t [THEN conjunct1] f by simp
  have g3: "removed_count (remove_duplicate_screenshots tag_digest
         (example_storage\<lparr>readable := (\<lambda>p. p \<noteq> ''a.png'')\<rparr>)
         ([] @ ''a.png'' # [''b.png'', ''c.png''])) = 0"
    using t [THEN conjunct2, THEN conjunct2, THEN conjunct2] n by simp
  from h g1 t [THEN conjunct2, THEN conjunct1] g3 show ?thesis by (intro conjI)
qed

theorem deduplicate_idempotent_witness:
  "length [''a.png''] < 2
   \<and> removed_count (remove_duplicate_screenshots tag_digest example_storage [''a.png'']) = 0
   \<and> fingerprinted (remove_duplicate_screenshots tag_digest example_storage [''a.png'']) = []
   \<and> removed_count
       (remove_duplicate_screenshots tag_digest
          (storage_after (remove_duplicate_screenshots tag_digest example_storage
             [''a.png'', ''b.png'', ''c.png'']))
          (survivors example_storage
             (storage_after (remove_duplicate_screenshots tag_digest example_storage
                [''a.png'', ''b.png'', ''c.png'']))
             [''a.png'', ''b.png'', ''c.png''])) = 0"
  using deduplicate_idempotent [where H = tag_digest and st = example_storage and xs = "[''a.png'']"]
    deduplicate_idempotent [where H = tag_digest and st = example_storage
      and xs = "[''a.png'', ''b.png'', ''c.png'']"]
  by simp

subsection \<open>The orchestrator and the document build\<close>

text \<open>
  Claim C9. Whenever the extraction returns at least one artifact (the video information
  and the download having succeeded), \<^verbatim>\<open>process_video\<close> returns \<^verbatim>\<open>True\<close>, whatever the
  document build meets: its result is discarded.
\<close>

theorem document_failure_not_fatal:
  assumes "video_title e = Some title" and "fst (download e)"
    and "map_option fst
           (extract_high_quality_screenshots (run_ffprobe e) (run_ffmpeg e)
              (child e (child e output_dir (sanitize_filename title)) ''images'')
              interval (sanitize_filename title) q w) = Some (n, fs)"
    and "0 < n"
  shows "map_option fst (process_video (e\<lparr>pdf := pe\<rparr>) interval output_dir q no_pdf w) = Some True"
proof -
  from assms(3) obtain w1 where
    "extract_high_quality_screenshots (run_ffprobe e) (run_ffmpeg e)
       (child e (child e output_dir (sanitize_filename title)) ''images'')
       interval (sanitize_filename title) q w = Some ((n, fs), w1)"
    by auto
  with assms(1,2,4) show ?thesis
    by (simp add: process_video_def Let_def)
qed

lemma example_names:
  "output_file ''out/v/images'' ''v'' Highest 0 = ''out/v/images/v_0000s.png''"
  "output_file ''out/v/images'' ''v'' Highest 4 = ''out/v/images/v_0004s.png''"
  "output_file ''out/v/images'' ''v'' Highest 8 = ''out/v/images/v_0008s.png''"
  by code_simp+

lemma example_dirs:
  "sanitize_filename ''v'' = ''v''"
  "path_join (path_join ''out'' ''v'') ''images'' = ''out/v/images''"
  by (simp_all add: sanitize_filename_def strip_chars_def path_join_def)

lemma example_extraction:
  "map_option fst (extract_high_quality_screenshots (Inr 10) (\<lambda>t. Some ''frame'')
      ''out/v/images'' 4 ''v'' Highest empty_world) =
   Some (3, [''out/v/images/v_0000s.png'', ''out/v/images/v_0004s.png'',
             ''out/v/images/v_0008s.png''])"
  by (simp add: extract_high_quality_screenshots_def extract_run_def handler_def
      extract_loop_eval format_time_ok_def example_names)

theorem document_failure_not_fatal_witness:
  "video_title example_env = Some ''v'' \<and> fst (download example_env)
   \<and> map_option fst
        (extract_high_quality_screenshots (run_ffprobe example_env) (run_ffmpeg example_env)
           (child example_env (child example_env ''out'' (sanitize_filename ''v'')) ''images'')
           4 (sanitize_filename ''v'') Highest empty_world) =
       Some (3, [''out/v/images/v_0000s.png'', ''out/v/images/v_0004s.png'',
                 ''out/v/images/v_0008s.png''])
   \<and> (0::nat) < 3
   \<and> fst (create_hd_pdf failing_pdf ''out/v/v_HD.pdf'' empty_storage) = False
   \<and> map_option fst (process_video (example_env\<lparr>pdf := failing_pdf\<rparr>) 4 ''out'' Highest False
         empty_world) = Some True"
proof -
  have a: "video_title example_env = Some ''v''" and b: "fst (download example_env)"
    by (simp_all add: example_env_def)
  have c: "map_option fst
        (extract_high_quality_screenshots (run_ffprobe example_env) (run_ffmpeg example_env)
           (child example_env (child example_env ''out'' (sanitize_filename ''v'')) ''images'')
           4 (sanitize_filename ''v'') Highest empty_world) =
       Some (3, [''out/v/images/v_0000s.png'', ''out/v/images/v_0004s.png'',
                 ''out/v/images/v_0008s.png''])"
    using example_extraction by (simp add: example_env_def example_dirs)
  have d: "fst (create_hd_pdf failing_pdf ''out/v/v_HD.pdf'' empty_storage) = False"
    by (simp add: create_hd_pdf_def failing_pdf_def)
  from document_failure_not_fatal [OF a b c, where pe = failing_pdf and no_pdf = False] a b c d
  show ?thesis by simp
qed

end
